theory Spec2Isabelle
  imports Main "HOL-Library.AList"
begin

section \<open>Sentence-aware chunking (text\_splitters.py)\<close>

text \<open>
  Python exceptions are values. Both \<^verbatim>\<open>raise\<close> statements of the modelled code raise
  \<^verbatim>\<open>ValueError\<close> with a message.
\<close>

datatype error = ValueError string

text \<open>
  \<^verbatim>\<open>sentence_data\<close> is the list of pairs (sentence, \<^verbatim>\<open>len(word_tokenize(sentence))\<close>).
  A token count is the length of a list, hence a \<open>nat\<close>; \<^verbatim>\<open>num_tokens\<close> and
  \<^verbatim>\<open>token_overlap\<close> are Python integers of either sign, hence \<open>int\<close>.
\<close>

type_synonym sentence_data = "(string \<times> nat) list"

text \<open>Python's \<^verbatim>\<open>sep.join(parts)\<close>.\<close>

fun join :: "string \<Rightarrow> string list \<Rightarrow> string" where
  "join sep [] = []"
| "join sep [x] = x"
| "join sep (x # y # ys) = x @ sep @ join sep (y # ys)"

text \<open>
  The inner \<^verbatim>\<open>while end_sentence_idx < len(sentence_data)\<close> loop. The state is
  \<^verbatim>\<open>chunk_sentences\<close>, \<^verbatim>\<open>chunk_token_count\<close> and \<^verbatim>\<open>end_sentence_idx\<close>; the first two
  branches are the two \<^verbatim>\<open>break\<close>s.
\<close>

function build_chunk ::
  "sentence_data \<Rightarrow> int \<Rightarrow> string list \<Rightarrow> int \<Rightarrow> nat \<Rightarrow> string list \<times> int \<times> nat" where
  "build_chunk sentence_data num_tokens chunk_sentences chunk_token_count end_sentence_idx =
     (if end_sentence_idx < length sentence_data then
        (case sentence_data ! end_sentence_idx of (sentence, count) \<Rightarrow>
           if chunk_sentences = [] \<and> int count > num_tokens then
             (chunk_sentences @ [sentence], chunk_token_count + int count, end_sentence_idx + 1)
           else if chunk_token_count + int count > num_tokens then
             (chunk_sentences, chunk_token_count, end_sentence_idx)
           else
             build_chunk sentence_data num_tokens (chunk_sentences @ [sentence])
               (chunk_token_count + int count) (end_sentence_idx + 1))
      else (chunk_sentences, chunk_token_count, end_sentence_idx))"
  by pat_completeness auto
termination
  by (relation "measure (\<lambda>(sd, nt, cs, cnt, e). length sd - e)") auto

declare build_chunk.simps [simp del]

text \<open>
  The backward walk
  \<^verbatim>\<open>while next_start_idx > current_sentence_idx and overlap_token_count < token_overlap\<close>.
  It returns the final \<^verbatim>\<open>next_start_idx\<close>. The index is only decremented while it is
  greater than \<^verbatim>\<open>current_sentence_idx\<close>, so it never leaves the naturals.
\<close>

function overlap_walk :: "sentence_data \<Rightarrow> nat \<Rightarrow> int \<Rightarrow> int \<Rightarrow> nat \<Rightarrow> nat" where
  "overlap_walk sentence_data current_sentence_idx token_overlap overlap_token_count next_start_idx =
     (if next_start_idx > current_sentence_idx \<and> overlap_token_count < token_overlap then
        overlap_walk sentence_data current_sentence_idx token_overlap
          (overlap_token_count + int (snd (sentence_data ! next_start_idx))) (next_start_idx - 1)
      else next_start_idx)"
  by pat_completeness auto
termination
  by (relation "measure (\<lambda>(sd, cur, ov, acc, n). n)") auto

declare overlap_walk.simps [simp del]

text \<open>
  Lines 55 to 66: the cursor of the next chunk,
  \<^verbatim>\<open>max(next_start_idx + 1, current_sentence_idx + 1)\<close> after the walk that starts at
  \<^verbatim>\<open>end_sentence_idx - 1\<close>. (The chunk just built is never empty, see
  \<open>build_chunk_end_gt\<close> below, so \<^verbatim>\<open>end_sentence_idx - 1\<close> is not negative.)
\<close>

definition next_start :: "sentence_data \<Rightarrow> int \<Rightarrow> nat \<Rightarrow> nat \<Rightarrow> nat" where
  "next_start sentence_data token_overlap current_sentence_idx end_sentence_idx =
     max (overlap_walk sentence_data current_sentence_idx token_overlap 0 (end_sentence_idx - 1) + 1)
         (current_sentence_idx + 1)"

text \<open>
  The outer \<^verbatim>\<open>while current_sentence_idx < len(sentence_data)\<close> loop, with the list
  \<^verbatim>\<open>chunks\<close> as accumulator.
\<close>

function splitter_loop :: "sentence_data \<Rightarrow> int \<Rightarrow> int \<Rightarrow> nat \<Rightarrow> string list \<Rightarrow> string list" where
  "splitter_loop sentence_data num_tokens token_overlap current_sentence_idx chunks =
     (if current_sentence_idx < length sentence_data then
        (case build_chunk sentence_data num_tokens [] 0 current_sentence_idx of
           (chunk_sentences, chunk_token_count, end_sentence_idx) \<Rightarrow>
             if end_sentence_idx \<ge> length sentence_data then
               chunks @ [join '' '' chunk_sentences]
             else
               splitter_loop sentence_data num_tokens token_overlap
                 (next_start sentence_data token_overlap current_sentence_idx end_sentence_idx)
                 (chunks @ [join '' '' chunk_sentences]))
      else chunks)"
  by pat_completeness auto
termination
  by (relation "measure (\<lambda>(sd, nt, ov, cur, chunks). length sd - cur)")
     (simp_all add: next_start_def)

declare splitter_loop.simps [simp del]

text \<open>
  Line 16, the comprehension
  \<^verbatim>\<open>[(s, len(word_tokenize(s))) for s in sentences]\<close>.
\<close>

definition sentence_data_of :: "(string \<Rightarrow> string list) \<Rightarrow> string list \<Rightarrow> sentence_data" where
  "sentence_data_of word_tokenize sentences = map (\<lambda>s. (s, length (word_tokenize s))) sentences"

text \<open>
  \<^verbatim>\<open>sentence_aware_splitter\<close>. The segmenter \<^verbatim>\<open>sent_tokenize\<close> and the tokenizer
  \<^verbatim>\<open>word_tokenize\<close> are nltk functions, taken as parameters.
\<close>

definition sentence_aware_splitter ::
  "(string \<Rightarrow> string list) \<Rightarrow> (string \<Rightarrow> string list) \<Rightarrow> string \<Rightarrow> int \<Rightarrow> int \<Rightarrow> error + string list" where
  "sentence_aware_splitter sent_tokenize word_tokenize text num_tokens token_overlap =
     (if num_tokens \<le> token_overlap then
        Inl (ValueError ''num_tokens must be greater than token_overlap'')
      else
        let sentences = sent_tokenize text in
        if sentences = [] then Inr []
        else
          let sentence_data = sentence_data_of word_tokenize sentences
          in Inr (splitter_loop sentence_data num_tokens token_overlap 0 []))"

text \<open>
  The sentence spans of the chunks: the same loop as \<open>splitter_loop\<close>, recording for each
  emitted chunk the pair (\<^verbatim>\<open>current_sentence_idx\<close>, \<^verbatim>\<open>end_sentence_idx\<close>) instead of the
  joined text. Lemma \<open>splitter_loop_spans\<close> ties the two together.
\<close>

function chunk_spans :: "sentence_data \<Rightarrow> int \<Rightarrow> int \<Rightarrow> nat \<Rightarrow> (nat \<times> nat) list" where
  "chunk_spans sentence_data num_tokens token_overlap current_sentence_idx =
     (if current_sentence_idx < length sentence_data then
        (case build_chunk sentence_data num_tokens [] 0 current_sentence_idx of
           (chunk_sentences, chunk_token_count, end_sentence_idx) \<Rightarrow>
             if end_sentence_idx \<ge> length sentence_data then
               [(current_sentence_idx, end_sentence_idx)]
             else
               (current_sentence_idx, end_sentence_idx) #
               chunk_spans sentence_data num_tokens token_overlap
                 (next_start sentence_data token_overlap current_sentence_idx end_sentence_idx))
      else [])"
  by pat_completeness auto
termination
  by (relation "measure (\<lambda>(sd, nt, ov, cur). length sd - cur)")
     (simp_all add: next_start_def)

declare chunk_spans.simps [simp del]

text \<open>The sentences \<open>s, \<dots>, e - 1\<close>, their token count and their joined text.\<close>

definition span_sentences :: "sentence_data \<Rightarrow> nat \<Rightarrow> nat \<Rightarrow> sentence_data" where
  "span_sentences sentence_data s e = take (e - s) (drop s sentence_data)"

definition span_tokens :: "sentence_data \<Rightarrow> nat \<Rightarrow> nat \<Rightarrow> int" where
  "span_tokens sentence_data s e = int (sum_list (map snd (span_sentences sentence_data s e)))"

definition span_text :: "sentence_data \<Rightarrow> nat \<times> nat \<Rightarrow> string" where
  "span_text sentence_data se =
     join '' '' (map fst (span_sentences sentence_data (fst se) (snd se)))"

text \<open>
  A segmenter and a tokenizer to run the splitter on: sentences are separated by a slash,
  and every character of a sentence is a token.
\<close>

fun demo_sent_tokenize :: "string \<Rightarrow> string list" where
  "demo_sent_tokenize [] = []"
| "demo_sent_tokenize (c # cs) =
     (if c = CHR ''/'' then [] # demo_sent_tokenize cs
      else case demo_sent_tokenize cs of [] \<Rightarrow> [[c]] | w # ws \<Rightarrow> (c # w) # ws)"

definition demo_word_tokenize :: "string \<Rightarrow> string list" where
  "demo_word_tokenize s = map (\<lambda>c. [c]) s"

section \<open>Parent and child ingestion (parent\_child\_ingester.py)\<close>

text \<open>
  A metadata dictionary has string keys; its values are the strings and integers the
  ingester stores (\<^verbatim>\<open>{"parent_id": parent_id, "chunk_index": i}\<close>).
\<close>

datatype meta_value = MStr string | MInt int

type_synonym metadata = "(string \<times> meta_value) list"

text \<open>
  One entry of the vector index, as the keyword arguments of
  \<^verbatim>\<open>chroma_collection.add\<close> give it. The embedding vectors are values of a type \<open>'e\<close>
  that the model does not look into.
\<close>

record 'e index_entry =
  embeddings :: 'e
  metadatas :: metadata
  documents :: string

text \<open>
  The two attributes of a \<^verbatim>\<open>ParentChildIngester\<close>. The vector index maps an id to its
  entry. \<^verbatim>\<open>parent_doc_store\<close> is a Python dict: an association list in insertion order
  with one pair per key, where \<^verbatim>\<open>d[k] = v\<close> is \<open>AList.update k v\<close> (the value is replaced in
  place when the key is present, the pair is appended when it is not).
\<close>

record 'e ingester =
  chroma_collection :: "string \<rightharpoonup> 'e index_entry"
  parent_doc_store :: "(string \<times> string) list"

text \<open>
  \<^verbatim>\<open>__init__\<close>: the collection is the one the client returns (empty for an in-memory
  client, whatever was persisted for a persistent one), the parent store is empty.
\<close>

definition init_ingester :: "(string \<rightharpoonup> 'e index_entry) \<Rightarrow> 'e ingester" where
  "init_ingester collection = \<lparr>chroma_collection = collection, parent_doc_store = []\<rparr>"

text \<open>
  A method returns the exception it raised, if any, and the object as it is when the
  method returns or raises. The methods keep their names without the leading underscore.

  Lines 44 and 45, the body of the loop of \<^verbatim>\<open>_ingest_parent_docs\<close>. The parameter
  \<open>sha256\<close> stands for \<^verbatim>\<open>hashlib.sha256(chunk.encode()).hexdigest()\<close>, a function of the
  chunk text.
\<close>

definition store_parent_chunk :: "(string \<Rightarrow> string) \<Rightarrow> string \<Rightarrow> 'e ingester \<Rightarrow> 'e ingester" where
  "store_parent_chunk sha256 chunk self =
     (let parent_id = sha256 chunk
      in self\<lparr>parent_doc_store := AList.update parent_id chunk (parent_doc_store self)\<rparr>)"

text \<open>\<^verbatim>\<open>_ingest_parent_docs\<close>. The \<^verbatim>\<open>ValueError\<close> of the splitter propagates.\<close>

definition ingest_parent_docs ::
  "(string \<Rightarrow> string list) \<Rightarrow> (string \<Rightarrow> string list) \<Rightarrow> (string \<Rightarrow> string) \<Rightarrow>
   string \<Rightarrow> int \<Rightarrow> int \<Rightarrow> 'e ingester \<Rightarrow> error option \<times> 'e ingester" where
  "ingest_parent_docs sent_tokenize word_tokenize sha256 text parent_num_tokens parent_token_overlap self =
     (case sentence_aware_splitter sent_tokenize word_tokenize text parent_num_tokens parent_token_overlap of
        Inl err \<Rightarrow> (Some err, self)
      | Inr parent_chunks \<Rightarrow> (None, fold (store_parent_chunk sha256) parent_chunks self))"

text \<open>
  Modelled from the spec: the vector index is an external store (chromadb) whose code is
  not part of the repository. The spec describes the operation the ingester needs as
  \<^verbatim>\<open>upsert(id, embedding, metadata, document)\<close>, with "upsert-by-id semantics, not blind
  append": writing under an id that is present replaces the entry. The source calls it as
  \<^verbatim>\<open>chroma_collection.add(ids=..., embeddings=..., metadatas=..., documents=...)\<close>.
\<close>

definition collection_add ::
  "string \<Rightarrow> 'e \<Rightarrow> metadata \<Rightarrow> string \<Rightarrow> (string \<rightharpoonup> 'e index_entry) \<Rightarrow> (string \<rightharpoonup> 'e index_entry)" where
  "collection_add ids emb meta doc collection =
     collection(ids \<mapsto> \<lparr>embeddings = emb, metadatas = meta, documents = doc\<rparr>)"

text \<open>
  Lines 65 to 74, the body of the loop over \<^verbatim>\<open>enumerate(child_chunks)\<close>. The parameter
  \<open>ollama_embed\<close> stands for \<^verbatim>\<open>ollama.embed(embed_model_name, child_chunk)['embeddings']\<close>.
\<close>

definition add_child_chunk ::
  "(string \<Rightarrow> string) \<Rightarrow> (string \<Rightarrow> string \<Rightarrow> 'e) \<Rightarrow> string \<Rightarrow> string \<Rightarrow> nat \<times> string \<Rightarrow>
   'e ingester \<Rightarrow> 'e ingester" where
  "add_child_chunk sha256 ollama_embed embed_model_name parent_id ic self =
     (case ic of (i, child_chunk) \<Rightarrow>
        let child_id = sha256 child_chunk;
            child_embeddings = ollama_embed embed_model_name child_chunk
        in self\<lparr>chroma_collection :=
             collection_add child_id child_embeddings
               [(''parent_id'', MStr parent_id), (''chunk_index'', MInt (int i))]
               child_chunk (chroma_collection self)\<rparr>)"

text \<open>
  Lines 60 to 74, the loop over \<^verbatim>\<open>self.parent_doc_store.items()\<close>: the items are those of
  the store when the loop starts (the body does not write to the store). A \<^verbatim>\<open>ValueError\<close>
  of the splitter ends the loop and leaves the object as it is at that moment.
\<close>

fun ingest_children ::
  "(string \<Rightarrow> string list) \<Rightarrow> (string \<Rightarrow> string list) \<Rightarrow> (string \<Rightarrow> string) \<Rightarrow>
   (string \<Rightarrow> string \<Rightarrow> 'e) \<Rightarrow> int \<Rightarrow> int \<Rightarrow> string \<Rightarrow> (string \<times> string) list \<Rightarrow>
   'e ingester \<Rightarrow> error option \<times> 'e ingester" where
  "ingest_children sent_tokenize word_tokenize sha256 ollama_embed child_num_tokens child_token_overlap
     embed_model_name [] self = (None, self)"
| "ingest_children sent_tokenize word_tokenize sha256 ollama_embed child_num_tokens child_token_overlap
     embed_model_name ((parent_id, parent_chunk) # items) self =
     (case sentence_aware_splitter sent_tokenize word_tokenize parent_chunk
             child_num_tokens child_token_overlap of
        Inl err \<Rightarrow> (Some err, self)
      | Inr child_chunks \<Rightarrow>
          ingest_children sent_tokenize word_tokenize sha256 ollama_embed child_num_tokens
            child_token_overlap embed_model_name items
            (fold (add_child_chunk sha256 ollama_embed embed_model_name parent_id)
               (enumerate 0 child_chunks) self))"

text \<open>\<^verbatim>\<open>_ingest_child_docs\<close>.\<close>

definition ingest_child_docs ::
  "(string \<Rightarrow> string list) \<Rightarrow> (string \<Rightarrow> string list) \<Rightarrow> (string \<Rightarrow> string) \<Rightarrow>
   (string \<Rightarrow> string \<Rightarrow> 'e) \<Rightarrow> int \<Rightarrow> int \<Rightarrow> string \<Rightarrow> 'e ingester \<Rightarrow> error option \<times> 'e ingester" where
  "ingest_child_docs sent_tokenize word_tokenize sha256 ollama_embed child_num_tokens child_token_overlap
     embed_model_name self =
     (if length (parent_doc_store self) = 0 then
        (Some (ValueError ''Parent Chunks were not created.''), self)
      else
        ingest_children sent_tokenize word_tokenize sha256 ollama_embed child_num_tokens
          child_token_overlap embed_model_name (parent_doc_store self) self)"

text \<open>
  Lines 91 to 96: the set \<^verbatim>\<open>retrieved_parent_ids\<close>, built from the metadata lists of the
  query result. A Python set has no duplicates and no defined iteration order; it is kept
  here as a list without duplicates, in the order of first insertion. The properties
  proved below do not depend on that order.
\<close>

definition add_parent_id :: "metadata \<Rightarrow> meta_value list \<Rightarrow> meta_value list" where
  "add_parent_id meta retrieved_parent_ids =
     (case map_of meta ''parent_id'' of
        None \<Rightarrow> retrieved_parent_ids
      | Some v \<Rightarrow> if v \<in> set retrieved_parent_ids then retrieved_parent_ids
                  else retrieved_parent_ids @ [v])"

definition collect_parent_ids :: "metadata list list option \<Rightarrow> meta_value list" where
  "collect_parent_ids query_metadatas =
     (case query_metadatas of
        None \<Rightarrow> []
      | Some result_lists \<Rightarrow>
          if result_lists = [] then []
          else fold (\<lambda>metadata_lists ids. fold add_parent_id metadata_lists ids) result_lists [])"

text \<open>
  Lines 99 to 102: the parent texts of the ids that are keys of the store. The keys of the
  store are strings, so an id that is not a string is not among them.
\<close>

definition lookup_parent :: "(string \<times> string) list \<Rightarrow> meta_value \<Rightarrow> string list \<Rightarrow> string list" where
  "lookup_parent store parent_id retrieved_parent_docs =
     (case parent_id of
        MStr k \<Rightarrow> (case map_of store k of
                     Some parent_text \<Rightarrow> retrieved_parent_docs @ [parent_text]
                   | None \<Rightarrow> retrieved_parent_docs)
      | MInt n \<Rightarrow> retrieved_parent_docs)"

text \<open>The text the store holds for a retrieved id, if it holds one.\<close>

definition parent_text_of :: "(string \<times> string) list \<Rightarrow> meta_value \<Rightarrow> string option" where
  "parent_text_of store parent_id = (case parent_id of MStr k \<Rightarrow> map_of store k | MInt n \<Rightarrow> None)"

text \<open>
  \<^verbatim>\<open>_retrieve_docs\<close>. The parameter \<open>query\<close> stands for
  \<^verbatim>\<open>chroma_collection.query(query_embeddings=..., n_results=..., include=['metadatas'])['metadatas']\<close>,
  a function of the collection, the query embedding and \<^verbatim>\<open>n_results\<close> that reads the
  collection; its value is \<open>None\<close> or a list of metadata lists.
\<close>

definition retrieve_docs ::
  "(string \<Rightarrow> string \<Rightarrow> 'e) \<Rightarrow>
   ((string \<rightharpoonup> 'e index_entry) \<Rightarrow> 'e \<Rightarrow> int \<Rightarrow> metadata list list option) \<Rightarrow>
   string \<Rightarrow> string \<Rightarrow> int \<Rightarrow> 'e ingester \<Rightarrow> string list \<times> 'e ingester" where
  "retrieve_docs ollama_embed query query_text embed_model_name n_results self =
     (let query_embeddings = ollama_embed embed_model_name query_text;
          query_metadatas = query (chroma_collection self) query_embeddings n_results;
          retrieved_parent_ids = collect_parent_ids query_metadatas;
          retrieved_parent_docs = fold (lookup_parent (parent_doc_store self)) retrieved_parent_ids []
      in (retrieved_parent_docs, self))"

text \<open>Every key of the store is the digest of the text stored under it.\<close>

definition store_ok :: "(string \<Rightarrow> string) \<Rightarrow> (string \<times> string) list \<Rightarrow> bool" where
  "store_ok sha256 store = (\<forall>(k, t) \<in> set store. k = sha256 t)"

text \<open>
  A sequence of \<^verbatim>\<open>_ingest_parent_docs\<close> calls, each given by its arguments
  (text, \<^verbatim>\<open>parent_num_tokens\<close>, \<^verbatim>\<open>parent_token_overlap\<close>); a caller that catches the
  \<^verbatim>\<open>ValueError\<close> of one call goes on with the next.
\<close>

definition ingest_parent_calls ::
  "(string \<Rightarrow> string list) \<Rightarrow> (string \<Rightarrow> string list) \<Rightarrow> (string \<Rightarrow> string) \<Rightarrow>
   (string \<times> int \<times> int) list \<Rightarrow> 'e ingester \<Rightarrow> 'e ingester" where
  "ingest_parent_calls sent_tokenize word_tokenize sha256 calls self =
     fold (\<lambda>(text, parent_num_tokens, parent_token_overlap) s.
             snd (ingest_parent_docs sent_tokenize word_tokenize sha256 text
                    parent_num_tokens parent_token_overlap s))
          calls self"

text \<open>A digest, an embedding and a query result to run the ingester on.\<close>

definition demo_sha256 :: "string \<Rightarrow> string" where
  "demo_sha256 s = ''#'' @ s"


definition demo_embed :: "string \<Rightarrow> string \<Rightarrow> nat" where
  "demo_embed embed_model_name s = length s"

definition demo_query :: "(string \<rightharpoonup> nat index_entry) \<Rightarrow> nat \<Rightarrow> int \<Rightarrow> metadata list list option" where
  "demo_query collection query_embeddings n_results =
     Some [[[(''parent_id'', MStr ''#aa b''), (''chunk_index'', MInt 0)],
            [(''parent_id'', MStr ''#aa b''), (''chunk_index'', MInt 1)],
            [(''parent_id'', MStr ''#gone''), (''chunk_index'', MInt 0)]]]"

section \<open>Properties of the chunk builder\<close>

lemma span_sentences_empty [simp]: "span_sentences sd e e = []"
  by (simp add: span_sentences_def)

lemma span_sentences_Cons:
  "e < e' \<Longrightarrow> e < length sd \<Longrightarrow> span_sentences sd e e' = sd ! e # span_sentences sd (Suc e) e'"
proof -
  assume a: "e < e'" "e < length sd"
  then obtain d where d: "e' - e = Suc d" "e' - Suc e = d"
    by (metis Suc_diff_Suc)
  from a have "drop e sd = sd ! e # drop (Suc e) sd"
    by (simp add: Cons_nth_drop_Suc)
  with d show ?thesis by (simp add: span_sentences_def)
qed

lemma span_sentences_split:
  "s \<le> m \<Longrightarrow> m \<le> e \<Longrightarrow> span_sentences sd s e = span_sentences sd s m @ span_sentences sd m e"
proof -
  assume a: "s \<le> m" "m \<le> e"
  then have "e - s = (m - s) + (e - m)" by simp
  then have "take (e - s) (drop s sd) = take (m - s) (drop s sd) @ take (e - m) (drop (m - s) (drop s sd))"
    by (simp only: take_add)
  with a show ?thesis by (simp add: span_sentences_def)
qed

lemma span_tokens_empty [simp]: "span_tokens sd e e = 0"
  by (simp add: span_tokens_def)

lemma span_tokens_nonneg [simp]: "0 \<le> span_tokens sd s e"
  by (simp add: span_tokens_def)

lemma span_tokens_Cons:
  "e < e' \<Longrightarrow> e < length sd \<Longrightarrow> span_tokens sd e e' = int (snd (sd ! e)) + span_tokens sd (Suc e) e'"
  by (simp add: span_tokens_def span_sentences_Cons)

lemma span_tokens_split:
  "s \<le> m \<Longrightarrow> m \<le> e \<Longrightarrow> span_tokens sd s e = span_tokens sd s m + span_tokens sd m e"
  by (simp add: span_tokens_def span_sentences_split [of s m e])

lemma span_tokens_single:
  "e < length sd \<Longrightarrow> span_tokens sd e (Suc e) = int (snd (sd ! e))"
  by (simp add: span_tokens_Cons)

lemma span_sentences_snoc:
  "e \<le> e' \<Longrightarrow> e' < length sd \<Longrightarrow> span_sentences sd e (Suc e') = span_sentences sd e e' @ [sd ! e']"
  using span_sentences_split [of e e' "Suc e'" sd] by (simp add: span_sentences_Cons)

lemma span_tokens_snoc:
  "e \<le> e' \<Longrightarrow> e' < length sd \<Longrightarrow> span_tokens sd e (Suc e') = span_tokens sd e e' + int (snd (sd ! e'))"
  using span_tokens_split [of e e' "Suc e'" sd] by (simp add: span_tokens_single)

text \<open>What the inner loop returns.\<close>

lemma build_chunk_result:
  "build_chunk sd nt cs cnt e = (cs', cnt', e') \<Longrightarrow>
     e \<le> e' \<and> (e \<le> length sd \<longrightarrow> e' \<le> length sd) \<and>
     cs' = cs @ map fst (span_sentences sd e e') \<and> cnt' = cnt + span_tokens sd e e'"
proof (induction sd nt cs cnt e rule: build_chunk.induct)
  case (1 sd nt cs cnt e)
  show ?case
  proof (cases "e < length sd")
    case False
    with "1.prems" show ?thesis by (simp add: build_chunk.simps)
  next
    case True
    obtain s c where sc: "sd ! e = (s, c)" by (cases "sd ! e")
    show ?thesis
    proof (cases "cs = [] \<and> int c > nt")
      case A: True
      with True sc "1.prems" have "cs' = cs @ [s]" "cnt' = cnt + int c" "e' = Suc e"
        by (simp_all add: build_chunk.simps)
      with True sc show ?thesis by (simp add: span_sentences_Cons span_tokens_Cons)
    next
      case A: False
      show ?thesis
      proof (cases "cnt + int c > nt")
        case B: True
        with A True sc "1.prems" have "cs' = cs" "cnt' = cnt" "e' = e"
          by (auto simp add: build_chunk.simps)
        then show ?thesis using True by simp
      next
        case B: False
        with A True sc "1.prems"
        have r: "build_chunk sd nt (cs @ [s]) (cnt + int c) (e + 1) = (cs', cnt', e')"
          by (auto simp add: build_chunk.simps)
        have ih: "e + 1 \<le> e' \<and> (e + 1 \<le> length sd \<longrightarrow> e' \<le> length sd) \<and>
          cs' = (cs @ [s]) @ map fst (span_sentences sd (e + 1) e') \<and>
          cnt' = (cnt + int c) + span_tokens sd (e + 1) e'"
          using "1.IH" [OF True sc [symmetric] A B r] .
        then have lt: "e < e'" by simp
        from ih True sc lt show ?thesis
          by (simp add: span_sentences_Cons span_tokens_Cons)
      qed
    qed
  qed
qed

text \<open>The four ways one pass through the inner loop ends.\<close>

lemma build_chunk_stop:
  "\<not> e < length sd \<Longrightarrow> build_chunk sd nt cs cnt e = (cs, cnt, e)"
  by (simp add: build_chunk.simps)

lemma build_chunk_oversized:
  "e < length sd \<Longrightarrow> nt < int (snd (sd ! e)) \<Longrightarrow>
     build_chunk sd nt [] cnt e = ([fst (sd ! e)], cnt + int (snd (sd ! e)), Suc e)"
  by (subst build_chunk.simps) (simp add: case_prod_beta)

lemma build_chunk_full:
  "e < length sd \<Longrightarrow> \<not> (cs = [] \<and> nt < int (snd (sd ! e))) \<Longrightarrow> nt < cnt + int (snd (sd ! e)) \<Longrightarrow>
     build_chunk sd nt cs cnt e = (cs, cnt, e)"
  by (subst build_chunk.simps) (auto simp add: case_prod_beta)

lemma build_chunk_add:
  "e < length sd \<Longrightarrow> \<not> (cs = [] \<and> nt < int (snd (sd ! e))) \<Longrightarrow> \<not> nt < cnt + int (snd (sd ! e)) \<Longrightarrow>
     build_chunk sd nt cs cnt e =
     build_chunk sd nt (cs @ [fst (sd ! e)]) (cnt + int (snd (sd ! e))) (Suc e)"
  by (subst build_chunk.simps) (auto simp add: case_prod_beta)

lemma build_chunk_end_gt:
  assumes "cur < length sd" "build_chunk sd nt [] 0 cur = (cs, cnt, e)"
  shows "cur < e"
proof (cases "nt < int (snd (sd ! cur))")
  case True
  with assms show ?thesis by (simp add: build_chunk_oversized)
next
  case False
  with assms have "build_chunk sd nt ([] @ [fst (sd ! cur)]) (0 + int (snd (sd ! cur))) (Suc cur) = (cs, cnt, e)"
    by (simp add: build_chunk_add)
  from build_chunk_result [OF this] show ?thesis by simp
qed

text \<open>The token bound of a chunk.\<close>

lemma build_chunk_bound:
  "build_chunk sd nt cs cnt e = (cs', cnt', e') \<Longrightarrow>
   (cs = [] \<and> cnt = 0 \<and> e < length sd) \<or> (cs \<noteq> [] \<and> cnt \<le> nt) \<Longrightarrow>
   cnt' \<le> nt \<or> (cs = [] \<and> e' = Suc e \<and> nt < int (snd (sd ! e)))"
proof (induction sd nt cs cnt e rule: build_chunk.induct)
  case (1 sd nt cs cnt e)
  show ?case
  proof (cases "e < length sd")
    case False
    with "1.prems" show ?thesis by (simp add: build_chunk_stop)
  next
    case True
    obtain s c where sc: "sd ! e = (s, c)" by (cases "sd ! e")
    show ?thesis
    proof (cases "cs = [] \<and> int c > nt")
      case A: True
      with True sc "1.prems"(1) show ?thesis by (simp add: build_chunk_oversized)
    next
      case A: False
      show ?thesis
      proof (cases "cnt + int c > nt")
        case B: True
        with A True sc "1.prems"(1) have "cnt' = cnt" by (simp add: build_chunk_full)
        with A B "1.prems"(2) show ?thesis by auto
      next
        case B: False
        with A True sc "1.prems"(1)
        have r: "build_chunk sd nt (cs @ [s]) (cnt + int c) (e + 1) = (cs', cnt', e')"
          by (simp add: build_chunk_add)
        from B have "(cs @ [s] = [] \<and> cnt + int c = 0 \<and> e + 1 < length sd) \<or>
                     (cs @ [s] \<noteq> [] \<and> cnt + int c \<le> nt)" by simp
        from "1.IH" [OF True sc [symmetric] A B r this] show ?thesis by simp
      qed
    qed
  qed
qed

text \<open>A chunk that does not start at an oversized sentence stops before it.\<close>

lemma build_chunk_stops_before_oversized:
  "build_chunk sd nt cs cnt e = (cs', cnt', e') \<Longrightarrow> 0 \<le> cnt \<Longrightarrow> e \<le> i \<Longrightarrow>
   i < length sd \<Longrightarrow> nt < int (snd (sd ! i)) \<Longrightarrow> cs \<noteq> [] \<or> e < i \<Longrightarrow> e' \<le> i"
proof (induction sd nt cs cnt e rule: build_chunk.induct)
  case (1 sd nt cs cnt e)
  from "1.prems" have True: "e < length sd" by simp
  obtain s c where sc: "sd ! e = (s, c)" by (cases "sd ! e")
  show ?case
  proof (cases "cs = [] \<and> int c > nt")
    case A: True
    with True sc "1.prems"(1) have "e' = Suc e" by (simp add: build_chunk_oversized)
    with A "1.prems" show ?thesis by simp
  next
    case A: False
    show ?thesis
    proof (cases "cnt + int c > nt")
      case B: True
      with A True sc "1.prems"(1) have "e' = e" by (simp add: build_chunk_full)
      with "1.prems" show ?thesis by simp
    next
      case B: False
      with A True sc "1.prems"(1)
      have r: "build_chunk sd nt (cs @ [s]) (cnt + int c) (e + 1) = (cs', cnt', e')"
        by (simp add: build_chunk_add)
      have "e \<noteq> i"
      proof
        assume "e = i"
        with sc "1.prems"(5) have "nt < int c" by simp
        with "1.prems"(2) B show False by simp
      qed
      with "1.prems"(3) have lt: "e + 1 \<le> i" by simp
      from "1.prems"(2) have nn: "0 \<le> cnt + int c" by simp
      have "cs @ [s] \<noteq> [] \<or> e + 1 < i" by simp
      from "1.IH" [OF True sc [symmetric] A B r nn lt "1.prems"(4) "1.prems"(5) this]
      show ?thesis .
    qed
  qed
qed

text \<open>A chunk takes every sentence that fits.\<close>

lemma build_chunk_takes_fitting:
  "build_chunk sd nt cs cnt e = (cs', cnt', e') \<Longrightarrow> 0 \<le> cnt \<Longrightarrow> e \<le> m \<Longrightarrow>
   m \<le> length sd \<Longrightarrow> cnt + span_tokens sd e m \<le> nt \<Longrightarrow> m \<le> e'"
proof (induction sd nt cs cnt e rule: build_chunk.induct)
  case (1 sd nt cs cnt e)
  show ?case
  proof (cases "e = m")
    case True
    with build_chunk_result [OF "1.prems"(1)] show ?thesis by simp
  next
    case False
    with "1.prems" have lt: "e < m" and True: "e < length sd" by simp_all
    obtain s c where sc: "sd ! e = (s, c)" by (cases "sd ! e")
    from lt True sc have tok: "span_tokens sd e m = int c + span_tokens sd (Suc e) m"
      by (simp add: span_tokens_Cons)
    have rest: "0 \<le> span_tokens sd (Suc e) m" by simp
    from tok rest "1.prems"(5) have B: "\<not> nt < cnt + int c" by linarith
    with "1.prems"(2) have A: "\<not> (cs = [] \<and> nt < int c)" by linarith
    from A B True sc "1.prems"(1)
    have r: "build_chunk sd nt (cs @ [s]) (cnt + int c) (e + 1) = (cs', cnt', e')"
      by (simp add: build_chunk_add)
    from "1.prems"(2) have nn: "0 \<le> cnt + int c" by simp
    from lt have le: "e + 1 \<le> m" by simp
    from tok "1.prems"(5) have fit: "(cnt + int c) + span_tokens sd (e + 1) m \<le> nt" by simp
    from "1.IH" [OF True sc [symmetric] _ _ r nn le "1.prems"(4) fit] A B
    show ?thesis by simp
  qed
qed

text \<open>What the backward walk returns.\<close>

lemma overlap_walk_stop:
  "\<not> (cur < n \<and> acc < ov) \<Longrightarrow> overlap_walk sd cur ov acc n = n"
  by (subst overlap_walk.simps) auto

lemma overlap_walk_step:
  "cur < Suc k \<Longrightarrow> acc < ov \<Longrightarrow>
   overlap_walk sd cur ov acc (Suc k) = overlap_walk sd cur ov (acc + int (snd (sd ! Suc k))) k"
  by (subst overlap_walk.simps) simp

lemma overlap_walk_result:
  "cur \<le> n \<Longrightarrow> n < length sd \<Longrightarrow>
   cur \<le> overlap_walk sd cur ov acc n \<and> overlap_walk sd cur ov acc n \<le> n \<and>
   (overlap_walk sd cur ov acc n = cur \<or>
    ov \<le> acc + span_tokens sd (Suc (overlap_walk sd cur ov acc n)) (Suc n)) \<and>
   (\<forall>j. overlap_walk sd cur ov acc n < j \<and> j \<le> n \<longrightarrow> acc + span_tokens sd (Suc j) (Suc n) < ov)"
proof (induction n arbitrary: acc)
  case 0
  then have "cur = 0" by simp
  then have "overlap_walk sd cur ov acc 0 = 0" by (simp add: overlap_walk_stop)
  with \<open>cur = 0\<close> show ?case by simp
next
  case (Suc k)
  show ?case
  proof (cases "cur < Suc k \<and> acc < ov")
    case False
    then have r: "overlap_walk sd cur ov acc (Suc k) = Suc k" by (rule overlap_walk_stop)
    from False Suc.prems(1) have "cur = Suc k \<or> ov \<le> acc" by linarith
    then show ?thesis unfolding r using Suc.prems(1) by auto
  next
    case True
    let ?acc = "acc + int (snd (sd ! Suc k))"
    let ?r = "overlap_walk sd cur ov ?acc k"
    from True have r: "overlap_walk sd cur ov acc (Suc k) = ?r" by (simp add: overlap_walk_step)
    from True Suc.prems have p: "cur \<le> k" "k < length sd" by simp_all
    have tok: "span_tokens sd (Suc j) (Suc (Suc k)) = span_tokens sd (Suc j) (Suc k) + int (snd (sd ! Suc k))"
      if "j \<le> k" for j
      using that Suc.prems(2) by (simp add: span_tokens_snoc)
    note ih = Suc.IH [OF p, of ?acc]
    from ih have i1: "cur \<le> ?r" and i2: "?r \<le> k" by simp_all
    from ih have i3: "?r = cur \<or> ov \<le> ?acc + span_tokens sd (Suc ?r) (Suc k)" by simp
    from ih have i4: "\<And>j. ?r < j \<Longrightarrow> j \<le> k \<Longrightarrow> ?acc + span_tokens sd (Suc j) (Suc k) < ov" by simp
    have c3: "?r = cur \<or> ov \<le> acc + span_tokens sd (Suc ?r) (Suc (Suc k))"
      using i3 tok [OF i2] by linarith
    have c4: "acc + span_tokens sd (Suc j) (Suc (Suc k)) < ov" if j: "?r < j" "j \<le> Suc k" for j
    proof (cases "j = Suc k")
      case True
      with \<open>cur < Suc k \<and> acc < ov\<close> show ?thesis by simp
    next
      case False
      with j have jk: "j \<le> k" by simp
      from i4 [OF j(1) jk] tok [OF jk] show ?thesis by linarith
    qed
    from i1 i2 c3 c4 show ?thesis unfolding r by auto
  qed
qed

lemma next_start_walk:
  assumes "cur < e" "e \<le> length sd"
  shows "next_start sd ov cur e = Suc (overlap_walk sd cur ov 0 (e - 1))"
    and "cur < next_start sd ov cur e" and "next_start sd ov cur e \<le> e"
    and "next_start sd ov cur e = Suc cur \<or> ov \<le> span_tokens sd (next_start sd ov cur e) e"
proof -
  from assms obtain n where e: "e = Suc n" by (cases e) simp_all
  with assms have p: "cur \<le> n" "n < length sd" by simp_all
  note w = overlap_walk_result [OF p, of ov 0]
  from w have w1: "cur \<le> overlap_walk sd cur ov 0 n" and w2: "overlap_walk sd cur ov 0 n \<le> n"
    by simp_all
  from w have w3: "overlap_walk sd cur ov 0 n = cur \<or> ov \<le> span_tokens sd (Suc (overlap_walk sd cur ov 0 n)) (Suc n)"
    by simp
  from w1 show a: "next_start sd ov cur e = Suc (overlap_walk sd cur ov 0 (e - 1))"
    by (simp add: next_start_def e)
  from a w1 show "cur < next_start sd ov cur e" by (simp add: e)
  from a w2 show "next_start sd ov cur e \<le> e" by (simp add: e)
  from a w3 show "next_start sd ov cur e = Suc cur \<or> ov \<le> span_tokens sd (next_start sd ov cur e) e"
    by (auto simp add: e)
qed

section \<open>Properties of the chunk sequence\<close>

lemma chunk_spans_done:
  "\<not> cur < length sd \<Longrightarrow> chunk_spans sd nt ov cur = []"
  by (subst chunk_spans.simps) simp

lemma chunk_spans_final:
  "cur < length sd \<Longrightarrow> build_chunk sd nt [] 0 cur = (cs, cnt, e) \<Longrightarrow> length sd \<le> e \<Longrightarrow>
   chunk_spans sd nt ov cur = [(cur, e)]"
  by (subst chunk_spans.simps) simp

lemma chunk_spans_more:
  "cur < length sd \<Longrightarrow> build_chunk sd nt [] 0 cur = (cs, cnt, e) \<Longrightarrow> e < length sd \<Longrightarrow>
   chunk_spans sd nt ov cur = (cur, e) # chunk_spans sd nt ov (next_start sd ov cur e)"
  by (subst chunk_spans.simps) simp

lemma splitter_loop_done:
  "\<not> cur < length sd \<Longrightarrow> splitter_loop sd nt ov cur chunks = chunks"
  by (subst splitter_loop.simps) simp

lemma splitter_loop_final:
  "cur < length sd \<Longrightarrow> build_chunk sd nt [] 0 cur = (cs, cnt, e) \<Longrightarrow> length sd \<le> e \<Longrightarrow>
   splitter_loop sd nt ov cur chunks = chunks @ [join '' '' cs]"
  by (subst splitter_loop.simps) simp

lemma splitter_loop_more:
  "cur < length sd \<Longrightarrow> build_chunk sd nt [] 0 cur = (cs, cnt, e) \<Longrightarrow> e < length sd \<Longrightarrow>
   splitter_loop sd nt ov cur chunks =
   splitter_loop sd nt ov (next_start sd ov cur e) (chunks @ [join '' '' cs])"
  by (subst splitter_loop.simps) simp

text \<open>
  Induction along the outer loop: the cursor is past the end, or the chunk built at the
  cursor is the last one, or the loop goes on at \<open>next_start\<close>.
\<close>

lemma outer_loop_induct [case_names past_end final more]:
  assumes "\<And>cur. \<not> cur < length sd \<Longrightarrow> P cur"
    and "\<And>cur cs cnt e. cur < length sd \<Longrightarrow> build_chunk sd nt [] 0 cur = (cs, cnt, e) \<Longrightarrow>
           cur < e \<Longrightarrow> e = length sd \<Longrightarrow> P cur"
    and "\<And>cur cs cnt e. cur < length sd \<Longrightarrow> build_chunk sd nt [] 0 cur = (cs, cnt, e) \<Longrightarrow>
           cur < e \<Longrightarrow> e < length sd \<Longrightarrow> P (next_start sd ov cur e) \<Longrightarrow> P cur"
  shows "P cur"
proof (induction "length sd - cur" arbitrary: cur rule: less_induct)
  case less
  show ?case
  proof (cases "cur < length sd")
    case False
    then show ?thesis by (rule assms(1))
  next
    case True
    obtain cs cnt e where b: "build_chunk sd nt [] 0 cur = (cs, cnt, e)"
      by (cases "build_chunk sd nt [] 0 cur")
    from build_chunk_end_gt [OF True b] have ce: "cur < e" .
    from build_chunk_result [OF b] True have ele: "e \<le> length sd" by simp
    show ?thesis
    proof (cases "e < length sd")
      case False
      with ele have "e = length sd" by simp
      from assms(2) [OF True b ce this] show ?thesis .
    next
      case el: True
      from next_start_walk(2) [OF ce ele, of ov] True
      have "length sd - next_start sd ov cur e < length sd - cur" by simp
      from less [OF this] have "P (next_start sd ov cur e)" .
      from assms(3) [OF True b ce el this] show ?thesis .
    qed
  qed
qed

lemma build_chunk_text:
  "build_chunk sd nt [] 0 cur = (cs, cnt, e) \<Longrightarrow> join '' '' cs = span_text sd (cur, e)"
  using build_chunk_result [of sd nt "[]" 0 cur cs cnt e] by (simp add: span_text_def)

text \<open>The emitted chunks are the joined texts of the recorded spans.\<close>

lemma splitter_loop_spans:
  "splitter_loop sd nt ov cur chunks = chunks @ map (span_text sd) (chunk_spans sd nt ov cur)"
proof (induction cur arbitrary: chunks rule: outer_loop_induct [where sd = sd and nt = nt and ov = ov])
  case (past_end cur)
  then show ?case by (simp add: splitter_loop_done chunk_spans_done)
next
  case (final cur cs cnt e)
  then show ?case
    by (simp add: splitter_loop_final [OF final(1,2)] chunk_spans_final [OF final(1,2)] build_chunk_text)
next
  case (more cur cs cnt e)
  show ?case
    by (simp add: splitter_loop_more [OF more(1,2,4)] chunk_spans_more [OF more(1,2,4)]
        more.IH build_chunk_text [OF more(2)])
qed

lemma chunk_spans_nonempty:
  "cur < length sd \<Longrightarrow> chunk_spans sd nt ov cur \<noteq> []"
proof -
  assume c: "cur < length sd"
  obtain cs cnt e where b: "build_chunk sd nt [] 0 cur = (cs, cnt, e)"
    by (cases "build_chunk sd nt [] 0 cur")
  show ?thesis
  proof (cases "e < length sd")
    case True
    from chunk_spans_more [OF c b True] show ?thesis by simp
  next
    case False
    then have "length sd \<le> e" by simp
    from chunk_spans_final [OF c b this] show ?thesis by simp
  qed
qed

lemma chunk_spans_hd:
  "cur < length sd \<Longrightarrow> fst (hd (chunk_spans sd nt ov cur)) = cur"
proof -
  assume c: "cur < length sd"
  obtain cs cnt e where b: "build_chunk sd nt [] 0 cur = (cs, cnt, e)"
    by (cases "build_chunk sd nt [] 0 cur")
  show ?thesis
  proof (cases "e < length sd")
    case True
    from chunk_spans_more [OF c b True] show ?thesis by simp
  next
    case False
    then have "length sd \<le> e" by simp
    from chunk_spans_final [OF c b this] show ?thesis by simp
  qed
qed

text \<open>Every recorded span is a chunk built by the inner loop at its start.\<close>

lemma chunk_spans_built:
  "(s, e) \<in> set (chunk_spans sd nt ov cur) \<Longrightarrow>
   cur \<le> s \<and> s < e \<and> e \<le> length sd \<and> (\<exists>cs cnt. build_chunk sd nt [] 0 s = (cs, cnt, e))"
proof (induction cur rule: outer_loop_induct [where sd = sd and nt = nt and ov = ov])
  case (past_end cur)
  then show ?case by (simp add: chunk_spans_done)
next
  case (final cur cs cnt e')
  from final(5) have "s = cur" "e = e'"
    by (simp_all add: chunk_spans_final [OF final(1,2)] final(4))
  with final show ?case by auto
next
  case (more cur cs cnt e')
  from more.prems have "(s = cur \<and> e = e') \<or> (s, e) \<in> set (chunk_spans sd nt ov (next_start sd ov cur e'))"
    by (simp add: chunk_spans_more [OF more(1,2,4)])
  then show ?case
  proof
    assume "s = cur \<and> e = e'"
    with more show ?thesis by auto
  next
    assume "(s, e) \<in> set (chunk_spans sd nt ov (next_start sd ov cur e'))"
    from more.IH [OF this] next_start_walk(2) [OF more(3), of sd ov] more(4)
    show ?thesis by auto
  qed
qed

lemma sentence_aware_splitter_spans:
  assumes "sentence_aware_splitter st wt text nt ov = Inr chunks"
  shows "chunks = map (span_text (sentence_data_of wt (st text)))
                      (chunk_spans (sentence_data_of wt (st text)) nt ov 0)"
proof (cases "st text = []")
  case True
  with assms have "chunks = []"
    by (simp add: sentence_aware_splitter_def split: if_splits)
  moreover from True have "chunk_spans (sentence_data_of wt (st text)) nt ov 0 = []"
    by (simp add: sentence_data_of_def chunk_spans_done)
  ultimately show ?thesis by simp
next
  case False
  with assms have "chunks = splitter_loop (sentence_data_of wt (st text)) nt ov 0 []"
    by (simp add: sentence_aware_splitter_def Let_def split: if_splits)
  then show ?thesis by (simp add: splitter_loop_spans)
qed

lemma chunk_spans_bound:
  assumes "(s, e) \<in> set (chunk_spans sd nt ov cur)"
  shows "span_tokens sd s e \<le> nt \<or> (e = Suc s \<and> nt < int (snd (sd ! s)))"
proof -
  from chunk_spans_built [OF assms] obtain cs cnt
    where b: "build_chunk sd nt [] 0 s = (cs, cnt, e)" and se: "s < e" "e \<le> length sd"
    by blast
  from se have "([] = ([]::string list) \<and> (0::int) = 0 \<and> s < length sd) \<or> (([]::string list) \<noteq> [] \<and> (0::int) \<le> nt)"
    by simp
  from build_chunk_bound [OF b this] build_chunk_result [OF b] show ?thesis by simp
qed

lemma nth_span_sentences:
  "s \<le> i \<Longrightarrow> i < e \<Longrightarrow> e \<le> length sd \<Longrightarrow> sd ! i \<in> set (span_sentences sd s e)"
proof -
  assume a: "s \<le> i" "i < e" "e \<le> length sd"
  then have "span_sentences sd s e ! (i - s) = sd ! i" "i - s < length (span_sentences sd s e)"
    by (simp_all add: span_sentences_def)
  then show ?thesis by (metis nth_mem)
qed

lemma chunk_spans_cover:
  "cur \<le> i \<Longrightarrow> i < length sd \<Longrightarrow> \<exists>(s, e) \<in> set (chunk_spans sd nt ov cur). s \<le> i \<and> i < e"
proof (induction cur rule: outer_loop_induct [where sd = sd and nt = nt and ov = ov])
  case (past_end cur)
  then show ?case by simp
next
  case (final cur cs cnt e)
  then show ?case by (simp add: chunk_spans_final [OF final(1,2)])
next
  case (more cur cs cnt e)
  note unfold = chunk_spans_more [OF more(1,2,4), of ov]
  show ?case
  proof (cases "i < e")
    case True
    with more.prems show ?thesis by (simp add: unfold)
  next
    case False
    from more(3,4) have "next_start sd ov cur e \<le> e" by (simp add: next_start_walk(3))
    with False have "next_start sd ov cur e \<le> i" by simp
    from more.IH [OF this more.prems(2)] show ?thesis by (auto simp add: unfold)
  qed
qed

lemma chunk_spans_oversized:
  "cur \<le> i \<Longrightarrow> i < length sd \<Longrightarrow> nt < int (snd (sd ! i)) \<Longrightarrow>
   (i, Suc i) \<in> set (chunk_spans sd nt ov cur)"
proof (induction cur rule: outer_loop_induct [where sd = sd and nt = nt and ov = ov])
  case (past_end cur)
  then show ?case by simp
next
  case (final cur cs cnt e)
  show ?case
  proof (cases "cur = i")
    case True
    with final(2) final.prems have "e = Suc i" by (simp add: build_chunk_oversized)
    moreover from final(4) have "chunk_spans sd nt ov cur = [(cur, e)]"
      by (simp add: chunk_spans_final [OF final(1,2)])
    ultimately show ?thesis using True by simp
  next
    case False
    with final.prems have "([]::string list) \<noteq> [] \<or> cur < i" by simp
    from build_chunk_stops_before_oversized [OF final(2) _ final.prems(1,2,3) this]
    have "e \<le> i" by simp
    with final(4) final.prems show ?thesis by simp
  qed
next
  case (more cur cs cnt e)
  note unfold = chunk_spans_more [OF more(1,2,4), of ov]
  show ?case
  proof (cases "cur = i")
    case True
    with more(2) more.prems have "e = Suc i" by (simp add: build_chunk_oversized)
    with unfold True show ?thesis by simp
  next
    case False
    with more.prems have "([]::string list) \<noteq> [] \<or> cur < i" by simp
    from build_chunk_stops_before_oversized [OF more(2) _ more.prems(1,2,3) this]
    have "e \<le> i" by simp
    moreover from more(3,4) have "next_start sd ov cur e \<le> e" by (simp add: next_start_walk(3))
    ultimately have "next_start sd ov cur e \<le> i" by simp
    from more.IH [OF this more.prems(2,3)] show ?thesis by (simp add: unfold)
  qed
qed

lemma chunk_spans_successive:
  "successively (\<lambda>c1 c2. fst c2 = next_start sd ov (fst c1) (snd c1))
     (chunk_spans sd nt ov cur)"
proof (induction cur rule: outer_loop_induct [where sd = sd and nt = nt and ov = ov])
  case (past_end cur)
  then show ?case by (simp add: chunk_spans_done)
next
  case (final cur cs cnt e)
  then show ?case by (simp add: chunk_spans_final [OF final(1,2)])
next
  case (more cur cs cnt e)
  from more(3,4) have "next_start sd ov cur e \<le> e" by (simp add: next_start_walk(3))
  with more(4) have "next_start sd ov cur e < length sd" by simp
  from chunk_spans_hd [OF this] more.IH show ?case
    by (simp add: chunk_spans_more [OF more(1,2,4)] successively_Cons)
qed

lemma next_start_minimal:
  assumes "cur < e" "e \<le> length sd" "next_start sd ov cur e \<le> j" "j < e"
  shows "span_tokens sd (Suc j) e < ov"
proof -
  from assms obtain n where e: "e = Suc n" by (cases e) simp_all
  with assms have p: "cur \<le> n" "n < length sd" by simp_all
  from overlap_walk_result [OF p, of ov 0]
  have "\<And>j. overlap_walk sd cur ov 0 n < j \<Longrightarrow> j \<le> n \<Longrightarrow> span_tokens sd (Suc j) (Suc n) < ov"
    by simp
  moreover from next_start_walk(1) [OF assms(1,2), of ov] assms(3)
  have "overlap_walk sd cur ov 0 n < j" by (simp add: e)
  moreover from assms(4) have "j \<le> n" by (simp add: e)
  ultimately show ?thesis by (simp add: e)
qed

text \<open>Two consecutive chunks.\<close>

lemma chunk_spans_consecutive:
  assumes k: "Suc k < length (chunk_spans sd nt ov 0)"
    and c1: "chunk_spans sd nt ov 0 ! k = (s1, e1)"
    and c2: "chunk_spans sd nt ov 0 ! Suc k = (s2, e2)"
  shows "s2 = next_start sd ov s1 e1" and "s1 < e1" and "e1 \<le> length sd" and "e1 \<le> e2"
proof -
  from successively_nth [OF chunk_spans_successive [of sd ov nt 0] k] c1 c2
  show s2: "s2 = next_start sd ov s1 e1" by simp
  from k c1 have "(s1, e1) \<in> set (chunk_spans sd nt ov 0)" by (metis Suc_lessD nth_mem)
  note m1 = this
  from chunk_spans_built [OF m1] show b1: "s1 < e1" "e1 \<le> length sd" by simp_all
  from k c2 have m2: "(s2, e2) \<in> set (chunk_spans sd nt ov 0)" by (metis nth_mem)
  from chunk_spans_built [OF m2] obtain cs cnt
    where b2: "build_chunk sd nt [] 0 s2 = (cs, cnt, e2)" and se2: "s2 < e2" by blast
  note ns = next_start_walk [OF b1, of ov]
  show "e1 \<le> e2"
  proof (cases "s2 = e1")
    case True
    with se2 show ?thesis by simp
  next
    case False
    with ns(3) s2 have lt: "s2 < e1" by simp
    with ns(2) s2 have "e1 \<noteq> Suc s1" by simp
    with chunk_spans_bound [OF m1] have "span_tokens sd s1 e1 \<le> nt" by simp
    moreover from ns(2) s2 lt have "span_tokens sd s1 e1 = span_tokens sd s1 s2 + span_tokens sd s2 e1"
      by (simp add: span_tokens_split)
    moreover have "0 \<le> span_tokens sd s1 s2" by simp
    ultimately have "0 + span_tokens sd s2 e1 \<le> nt" by linarith
    from build_chunk_takes_fitting [OF b2 _ _ b1(2) this] lt show ?thesis by simp
  qed
qed

section \<open>The claims about the chunk builder\<close>

text \<open>
  C1. For \<open>num_tokens > token_overlap \<ge> 0\<close> and a text with at least one sentence,
  \<open>sentence_aware_splitter\<close> returns (all loops are total functions, their termination is
  proved where they are defined) a list of at least one chunk; from one chunk to the next
  the start index grows by at least one, because the assignment that ends an iteration of
  the outer loop always moves the cursor \<open>current_sentence_idx\<close> forward by at least one.
\<close>

theorem splitter_terminates_with_chunk:
  assumes "token_overlap < num_tokens" and "0 \<le> token_overlap" and "sent_tokenize text \<noteq> []"
  shows "\<exists>chunks.
      sentence_aware_splitter sent_tokenize word_tokenize text num_tokens token_overlap = Inr chunks \<and>
      1 \<le> length chunks \<and>
      chunks = map (span_text (sentence_data_of word_tokenize (sent_tokenize text)))
        (chunk_spans (sentence_data_of word_tokenize (sent_tokenize text)) num_tokens token_overlap 0) \<and>
      (\<forall>k. Suc k < length chunks \<longrightarrow>
        fst (chunk_spans (sentence_data_of word_tokenize (sent_tokenize text)) num_tokens token_overlap 0 ! k) + 1
        \<le> fst (chunk_spans (sentence_data_of word_tokenize (sent_tokenize text)) num_tokens token_overlap 0 ! Suc k)) \<and>
      (\<forall>sentence_data current_sentence_idx end_sentence_idx.
         current_sentence_idx + 1
         \<le> next_start sentence_data token_overlap current_sentence_idx end_sentence_idx)"
proof -
  let ?sd = "sentence_data_of word_tokenize (sent_tokenize text)"
  let ?spans = "chunk_spans ?sd num_tokens token_overlap 0"
  let ?chunks = "splitter_loop ?sd num_tokens token_overlap 0 []"
  have step: "\<forall>sentence_data current_sentence_idx end_sentence_idx.
         current_sentence_idx + 1
         \<le> next_start sentence_data token_overlap current_sentence_idx end_sentence_idx"
    by (simp add: next_start_def)
  from assms have r: "sentence_aware_splitter sent_tokenize word_tokenize text num_tokens token_overlap = Inr ?chunks"
    by (simp add: sentence_aware_splitter_def)
  have c: "?chunks = map (span_text ?sd) ?spans" by (simp add: splitter_loop_spans)
  from assms(3) have "0 < length ?sd" by (simp add: sentence_data_of_def)
  from chunk_spans_nonempty [OF this] c have l: "1 \<le> length ?chunks"
    by (cases ?spans) simp_all
  have "fst (?spans ! k) + 1 \<le> fst (?spans ! Suc k)" if k: "Suc k < length ?chunks" for k
  proof -
    from k c have k': "Suc k < length ?spans" by simp
    obtain s1 e1 where c1: "?spans ! k = (s1, e1)" by (cases "?spans ! k")
    obtain s2 e2 where c2: "?spans ! Suc k = (s2, e2)" by (cases "?spans ! Suc k")
    note cc = chunk_spans_consecutive [OF k' c1 c2]
    from next_start_walk(2) [OF cc(2,3), of token_overlap] cc(1) c1 c2 show ?thesis by simp
  qed
  with r l c step show ?thesis by blast
qed

theorem splitter_terminates_with_chunk_witness:
  "(1::int) < 3 \<and> (0::int) \<le> 1 \<and> demo_sent_tokenize ''aa/b/ccccc/d'' \<noteq> [] \<and>
   sentence_aware_splitter demo_sent_tokenize demo_word_tokenize ''aa/b/ccccc/d'' 3 1
     = Inr [''aa b'', ''b'', ''ccccc'', ''d''] \<and>
   Suc 2 < length [''aa b'', ''b'', ''ccccc'', ''d''] \<and>
   fst (chunk_spans (sentence_data_of demo_word_tokenize (demo_sent_tokenize ''aa/b/ccccc/d'')) 3 1 0 ! 2) + 1
     \<le> fst (chunk_spans (sentence_data_of demo_word_tokenize (demo_sent_tokenize ''aa/b/ccccc/d'')) 3 1 0 ! Suc 2)"
proof -
  have h: "(1::int) < 3" "(0::int) \<le> 1" by simp_all
  have n: "demo_sent_tokenize ''aa/b/ccccc/d'' \<noteq> []" by code_simp
  have e: "sentence_aware_splitter demo_sent_tokenize demo_word_tokenize ''aa/b/ccccc/d'' 3 1
     = Inr [''aa b'', ''b'', ''ccccc'', ''d'']"
    by code_simp
  from splitter_terminates_with_chunk
    [of 1 3 demo_sent_tokenize "''aa/b/ccccc/d''" demo_word_tokenize, OF h n]
    h n e
  show ?thesis
    by auto
qed

text \<open>
  C2, as amended. In the returned sequence, chunk \<open>k\<close> is the joined text of the
  sentences of span \<open>k\<close>, and its token count (the sum of its sentences' token counts) is
  at most \<open>num_tokens\<close> unless the chunk is one single sentence whose own token count
  exceeds \<open>num_tokens\<close>. Every such sentence gives such a chunk, so the chunks that exceed
  \<open>num_tokens\<close> can be several, not one at most.
\<close>

theorem chunk_token_bound:
  assumes "sentence_aware_splitter sent_tokenize word_tokenize text num_tokens token_overlap = Inr chunks"
    and "k < length chunks"
    and "chunk_spans (sentence_data_of word_tokenize (sent_tokenize text)) num_tokens token_overlap 0 ! k = (s, e)"
  shows "chunks ! k = span_text (sentence_data_of word_tokenize (sent_tokenize text)) (s, e) \<and>
     (span_tokens (sentence_data_of word_tokenize (sent_tokenize text)) s e \<le> num_tokens \<or>
      (e = Suc s \<and>
       num_tokens < int (snd (sentence_data_of word_tokenize (sent_tokenize text) ! s))))"
proof -
  let ?sd = "sentence_data_of word_tokenize (sent_tokenize text)"
  let ?spans = "chunk_spans ?sd num_tokens token_overlap 0"
  note c = sentence_aware_splitter_spans [OF assms(1)]
  from c assms(2) have k: "k < length ?spans" by simp
  with assms(3) have "(s, e) \<in> set ?spans" by (metis nth_mem)
  from chunk_spans_bound [OF this] c k assms(3) show ?thesis by simp
qed

theorem chunk_token_bound_witness:
  "sentence_aware_splitter demo_sent_tokenize demo_word_tokenize ''aa/b/ccccc/d'' 3 1
     = Inr [''aa b'', ''b'', ''ccccc'', ''d''] \<and>
   0 < length [''aa b'', ''b'', ''ccccc'', ''d''] \<and>
   chunk_spans (sentence_data_of demo_word_tokenize (demo_sent_tokenize ''aa/b/ccccc/d'')) 3 1 0 ! 0 = (0, 2) \<and>
   [''aa b'', ''b'', ''ccccc'', ''d''] ! 0
     = span_text (sentence_data_of demo_word_tokenize (demo_sent_tokenize ''aa/b/ccccc/d'')) (0, 2) \<and>
   span_tokens (sentence_data_of demo_word_tokenize (demo_sent_tokenize ''aa/b/ccccc/d'')) 0 2 = 3"
proof -
  have e: "sentence_aware_splitter demo_sent_tokenize demo_word_tokenize ''aa/b/ccccc/d'' 3 1
     = Inr [''aa b'', ''b'', ''ccccc'', ''d'']"
    by code_simp
  have k: "0 < length [''aa b'', ''b'', ''ccccc'', ''d'']" by simp
  have s: "chunk_spans (sentence_data_of demo_word_tokenize (demo_sent_tokenize ''aa/b/ccccc/d'')) 3 1 0 ! 0 = (0, 2)"
    by code_simp
  have t: "span_tokens (sentence_data_of demo_word_tokenize (demo_sent_tokenize ''aa/b/ccccc/d'')) 0 2 = 3"
    by code_simp
  from chunk_token_bound [OF e k s] e k s t show ?thesis by simp
qed

text \<open>
  More than one chunk can exceed \<open>num_tokens\<close>: with \<open>num_tokens = 3\<close>, the two sentences of
  five tokens each become two chunks of five tokens.
\<close>

theorem chunk_token_bound_counterexample:
  "sentence_aware_splitter demo_sent_tokenize demo_word_tokenize ''ccccc/ddddd'' 3 1
     = Inr [''ccccc'', ''ddddd''] \<and>
   chunk_spans (sentence_data_of demo_word_tokenize (demo_sent_tokenize ''ccccc/ddddd'')) 3 1 0
     = [(0, 1), (1, 2)] \<and>
   3 < span_tokens (sentence_data_of demo_word_tokenize (demo_sent_tokenize ''ccccc/ddddd'')) 0 1 \<and>
   3 < span_tokens (sentence_data_of demo_word_tokenize (demo_sent_tokenize ''ccccc/ddddd'')) 1 2"
  by code_simp

text \<open>The joined text holds every joined string, whole.\<close>

lemma join_infix:
  "x \<in> set xs \<Longrightarrow> \<exists>pre post. join sep xs = pre @ x @ post"
proof (induction sep xs rule: join.induct)
  case (1 sep)
  then show ?case by simp
next
  case (2 sep y)
  then have "join sep [y] = [] @ x @ []" by simp
  then show ?case by blast
next
  case (3 sep y z zs)
  show ?case
  proof (cases "x = y")
    case True
    then have "join sep (y # z # zs) = [] @ x @ (sep @ join sep (z # zs))" by simp
    then show ?thesis by blast
  next
    case False
    with "3.prems" have "x \<in> set (z # zs)" by simp
    from "3.IH" [OF this] obtain pre post where "join sep (z # zs) = pre @ x @ post" by blast
    then have "join sep (y # z # zs) = (y @ sep @ pre) @ x @ post" by simp
    then show ?thesis by blast
  qed
qed

text \<open>
  C3. No sentence is dropped: every sentence index \<open>i\<close> of the segmented text lies in the
  span of some returned chunk, whose text is the join of a sentence list that contains
  sentence \<open>i\<close>, so that the returned string holds the sentence, whole, between a prefix
  and a suffix; and a sentence with more than \<open>num_tokens\<close> tokens is a chunk by itself,
  whose text is that sentence unchanged.
\<close>

theorem every_sentence_in_a_chunk:
  assumes "sentence_aware_splitter sent_tokenize word_tokenize text num_tokens token_overlap = Inr chunks"
    and "i < length (sent_tokenize text)"
  shows "(\<exists>k < length chunks. \<exists>s e.
        chunk_spans (sentence_data_of word_tokenize (sent_tokenize text)) num_tokens token_overlap 0 ! k = (s, e) \<and>
        s \<le> i \<and> i < e \<and>
        chunks ! k = join '' '' (map fst (span_sentences (sentence_data_of word_tokenize (sent_tokenize text)) s e)) \<and>
        sent_tokenize text ! i \<in> set (map fst (span_sentences (sentence_data_of word_tokenize (sent_tokenize text)) s e)) \<and>
        (\<exists>pre post. chunks ! k = pre @ sent_tokenize text ! i @ post)) \<and>
     (num_tokens < int (length (word_tokenize (sent_tokenize text ! i))) \<longrightarrow>
       (\<exists>k < length chunks.
          chunk_spans (sentence_data_of word_tokenize (sent_tokenize text)) num_tokens token_overlap 0 ! k = (i, Suc i) \<and>
          chunks ! k = sent_tokenize text ! i))"
proof -
  let ?sd = "sentence_data_of word_tokenize (sent_tokenize text)"
  let ?spans = "chunk_spans ?sd num_tokens token_overlap 0"
  note c = sentence_aware_splitter_spans [OF assms(1)]
  from assms(2) have i: "i < length ?sd" and sdi: "?sd ! i = (sent_tokenize text ! i, length (word_tokenize (sent_tokenize text ! i)))"
    by (simp_all add: sentence_data_of_def)
  have first: "\<exists>k < length chunks. \<exists>s e. ?spans ! k = (s, e) \<and> s \<le> i \<and> i < e \<and>
        chunks ! k = join '' '' (map fst (span_sentences ?sd s e)) \<and>
        sent_tokenize text ! i \<in> set (map fst (span_sentences ?sd s e)) \<and>
        (\<exists>pre post. chunks ! k = pre @ sent_tokenize text ! i @ post)"
  proof -
    from chunk_spans_cover [OF _ i, of 0 num_tokens token_overlap]
    obtain s e where m: "(s, e) \<in> set ?spans" and se: "s \<le> i" "i < e" by auto
    from m obtain k where k: "k < length ?spans" "?spans ! k = (s, e)" by (metis in_set_conv_nth)
    from chunk_spans_built [OF m] have "e \<le> length ?sd" by simp
    from nth_span_sentences [OF se this] sdi
    have mem: "sent_tokenize text ! i \<in> set (map fst (span_sentences ?sd s e))" by force
    from c k have t: "chunks ! k = join '' '' (map fst (span_sentences ?sd s e))"
      by (simp add: span_text_def)
    from join_infix [OF mem, of "'' ''"] t
    have inf: "\<exists>pre post. chunks ! k = pre @ sent_tokenize text ! i @ post" by simp
    from c k have "k < length chunks" by simp
    with mem t inf show ?thesis using k(2) se by blast
  qed
  have second: "\<exists>k < length chunks. ?spans ! k = (i, Suc i) \<and> chunks ! k = sent_tokenize text ! i"
    if big: "num_tokens < int (length (word_tokenize (sent_tokenize text ! i)))"
  proof -
    from big sdi have "num_tokens < int (snd (?sd ! i))" by simp
    from chunk_spans_oversized [OF _ i this, of 0 token_overlap]
    have "(i, Suc i) \<in> set ?spans" by simp
    then obtain k where k: "k < length ?spans" "?spans ! k = (i, Suc i)" by (metis in_set_conv_nth)
    from i sdi have "span_text ?sd (i, Suc i) = sent_tokenize text ! i"
      by (simp add: span_text_def span_sentences_Cons)
    with c k have "chunks ! k = sent_tokenize text ! i" by simp
    moreover from c k have "k < length chunks" by simp
    ultimately show ?thesis using k(2) by blast
  qed
  from first second show ?thesis by blast
qed

theorem every_sentence_in_a_chunk_witness:
  "sentence_aware_splitter demo_sent_tokenize demo_word_tokenize ''aa/b/ccccc/d'' 3 1
     = Inr [''aa b'', ''b'', ''ccccc'', ''d''] \<and>
   2 < length (demo_sent_tokenize ''aa/b/ccccc/d'') \<and>
   (3::int) < int (length (demo_word_tokenize (demo_sent_tokenize ''aa/b/ccccc/d'' ! 2))) \<and>
   (\<exists>k < length [''aa b'', ''b'', ''ccccc'', ''d''].
      chunk_spans (sentence_data_of demo_word_tokenize (demo_sent_tokenize ''aa/b/ccccc/d'')) 3 1 0 ! k = (2, Suc 2) \<and>
      [''aa b'', ''b'', ''ccccc'', ''d''] ! k = demo_sent_tokenize ''aa/b/ccccc/d'' ! 2) \<and>
   (\<exists>k < length [''aa b'', ''b'', ''ccccc'', ''d'']. \<exists>pre post.
      [''aa b'', ''b'', ''ccccc'', ''d''] ! k = pre @ demo_sent_tokenize ''aa/b/ccccc/d'' ! 2 @ post)"
proof -
  have e: "sentence_aware_splitter demo_sent_tokenize demo_word_tokenize ''aa/b/ccccc/d'' 3 1
     = Inr [''aa b'', ''b'', ''ccccc'', ''d'']"
    by code_simp
  have i: "2 < length (demo_sent_tokenize ''aa/b/ccccc/d'')" by code_simp
  have b: "(3::int) < int (length (demo_word_tokenize (demo_sent_tokenize ''aa/b/ccccc/d'' ! 2)))"
    by code_simp
  from every_sentence_in_a_chunk [OF e i] b e i show ?thesis by blast
qed

text \<open>
  C4. For two consecutive chunks with spans \<open>(s1, e1)\<close> and \<open>(s2, e2)\<close>: the next start \<open>s2\<close>
  is \<^verbatim>\<open>max(next_start_idx + 1, current_sentence_idx + 1)\<close> for the index the backward walk
  from \<open>e1 - 1\<close> returns; it lies after \<open>s1\<close> and not after \<open>e1\<close>; the walk did not stop
  earlier (from every later position the sentences up to \<open>e1\<close> have fewer than
  \<open>token_overlap\<close> tokens); the sentences \<open>s2, \<dots>, e1 - 1\<close> belong to both chunks, and their
  token count is at least \<open>token_overlap\<close> unless the walk was cut at the chunk's start,
  where the next chunk starts one sentence after \<open>s1\<close>.
\<close>

theorem overlap_start_of_next_chunk:
  assumes "sentence_aware_splitter sent_tokenize word_tokenize text num_tokens token_overlap = Inr chunks"
    and "Suc k < length chunks"
    and "chunk_spans (sentence_data_of word_tokenize (sent_tokenize text)) num_tokens token_overlap 0 ! k = (s1, e1)"
    and "chunk_spans (sentence_data_of word_tokenize (sent_tokenize text)) num_tokens token_overlap 0 ! Suc k = (s2, e2)"
  shows "chunks ! k = span_text (sentence_data_of word_tokenize (sent_tokenize text)) (s1, e1) \<and>
     chunks ! Suc k = span_text (sentence_data_of word_tokenize (sent_tokenize text)) (s2, e2) \<and>
     s2 = max (overlap_walk (sentence_data_of word_tokenize (sent_tokenize text)) s1 token_overlap 0 (e1 - 1) + 1)
              (s1 + 1) \<and>
     s1 < s2 \<and> s2 \<le> e1 \<and> e1 \<le> e2 \<and>
     (\<forall>j. s2 \<le> j \<and> j < e1 \<longrightarrow>
        span_tokens (sentence_data_of word_tokenize (sent_tokenize text)) (Suc j) e1 < token_overlap) \<and>
     (token_overlap \<le> span_tokens (sentence_data_of word_tokenize (sent_tokenize text)) s2 e1 \<or>
      s2 = Suc s1)"
proof -
  let ?sd = "sentence_data_of word_tokenize (sent_tokenize text)"
  let ?spans = "chunk_spans ?sd num_tokens token_overlap 0"
  note c = sentence_aware_splitter_spans [OF assms(1)]
  from c assms(2) have k: "Suc k < length ?spans" by simp
  note cc = chunk_spans_consecutive [OF k assms(3,4)]
  note ns = next_start_walk [OF cc(2,3), of token_overlap]
  from c k assms(3,4) have t: "chunks ! k = span_text ?sd (s1, e1)" "chunks ! Suc k = span_text ?sd (s2, e2)"
    by simp_all
  from cc(1) have d: "s2 = max (overlap_walk ?sd s1 token_overlap 0 (e1 - 1) + 1) (s1 + 1)"
    by (simp add: next_start_def)
  from ns(2,3) cc(1) have o: "s1 < s2" "s2 \<le> e1" by simp_all
  have m: "\<forall>j. s2 \<le> j \<and> j < e1 \<longrightarrow> span_tokens ?sd (Suc j) e1 < token_overlap"
    using next_start_minimal [OF cc(2,3), of token_overlap] cc(1) by blast
  from ns(4) cc(1) have v: "token_overlap \<le> span_tokens ?sd s2 e1 \<or> s2 = Suc s1" by auto
  from t d o cc(4) m v show ?thesis by blast
qed

theorem overlap_start_of_next_chunk_witness:
  "sentence_aware_splitter demo_sent_tokenize demo_word_tokenize ''aa/b/ccccc/d'' 3 1
     = Inr [''aa b'', ''b'', ''ccccc'', ''d''] \<and>
   Suc 0 < length [''aa b'', ''b'', ''ccccc'', ''d''] \<and>
   chunk_spans (sentence_data_of demo_word_tokenize (demo_sent_tokenize ''aa/b/ccccc/d'')) 3 1 0 ! 0 = (0, 2) \<and>
   chunk_spans (sentence_data_of demo_word_tokenize (demo_sent_tokenize ''aa/b/ccccc/d'')) 3 1 0 ! Suc 0 = (1, 2) \<and>
   (1::nat) = max (overlap_walk (sentence_data_of demo_word_tokenize (demo_sent_tokenize ''aa/b/ccccc/d'')) 0 1 0 (2 - 1) + 1)
              (0 + 1) \<and>
   (1::int) \<le> span_tokens (sentence_data_of demo_word_tokenize (demo_sent_tokenize ''aa/b/ccccc/d'')) 1 2"
proof -
  have e: "sentence_aware_splitter demo_sent_tokenize demo_word_tokenize ''aa/b/ccccc/d'' 3 1
     = Inr [''aa b'', ''b'', ''ccccc'', ''d'']"
    by code_simp
  have k: "Suc 0 < length [''aa b'', ''b'', ''ccccc'', ''d'']" by simp
  have c1: "chunk_spans (sentence_data_of demo_word_tokenize (demo_sent_tokenize ''aa/b/ccccc/d'')) 3 1 0 ! 0 = (0, 2)"
    by code_simp
  have c2: "chunk_spans (sentence_data_of demo_word_tokenize (demo_sent_tokenize ''aa/b/ccccc/d'')) 3 1 0 ! Suc 0 = (1, 2)"
    by code_simp
  have t: "(1::int) \<le> span_tokens (sentence_data_of demo_word_tokenize (demo_sent_tokenize ''aa/b/ccccc/d'')) 1 2"
    by code_simp
  from overlap_start_of_next_chunk [OF e k c1 c2] e k c1 c2 t show ?thesis by simp
qed

section \<open>Properties of the ingester\<close>

lemma store_parent_chunk_collection [simp]:
  "chroma_collection (store_parent_chunk sha256 chunk self) = chroma_collection self"
  by (simp add: store_parent_chunk_def)

lemma store_parent_chunk_store [simp]:
  "parent_doc_store (store_parent_chunk sha256 chunk self) =
   AList.update (sha256 chunk) chunk (parent_doc_store self)"
  by (simp add: store_parent_chunk_def)

lemma add_child_chunk_store [simp]:
  "parent_doc_store (add_child_chunk sha256 emb model parent_id ic self) = parent_doc_store self"
  by (cases ic) (simp add: add_child_chunk_def)

lemma fold_add_child_chunk_store [simp]:
  "parent_doc_store (fold (add_child_chunk sha256 emb model parent_id) ics self) = parent_doc_store self"
  by (induction ics arbitrary: self) simp_all

lemma ingest_children_store:
  "parent_doc_store (snd (ingest_children st wt sha256 emb cnt cov model items self)) = parent_doc_store self"
proof (induction items arbitrary: self)
  case Nil
  show ?case by simp
next
  case (Cons item items)
  obtain parent_id parent_chunk where i: "item = (parent_id, parent_chunk)" by (cases item)
  show ?case
  proof (cases "sentence_aware_splitter st wt parent_chunk cnt cov")
    case (Inl err)
    then show ?thesis by (simp add: i)
  next
    case (Inr child_chunks)
    then show ?thesis by (simp add: i Cons.IH)
  qed
qed

section \<open>The claims about the ingester\<close>

text \<open>
  C7. With an empty parent store \<^verbatim>\<open>_ingest_child_docs\<close> raises at once: the result is the
  \<^verbatim>\<open>ValueError\<close> "Parent Chunks were not created." (the spec's OrderingViolation), and the
  object, the vector index with it, is as it was.
\<close>

theorem child_ingestion_needs_parents:
  assumes "parent_doc_store self = []"
  shows "ingest_child_docs sent_tokenize word_tokenize sha256 ollama_embed child_num_tokens
           child_token_overlap embed_model_name self
         = (Some (ValueError ''Parent Chunks were not created.''), self) \<and>
         chroma_collection
           (snd (ingest_child_docs sent_tokenize word_tokenize sha256 ollama_embed child_num_tokens
                   child_token_overlap embed_model_name self))
         = chroma_collection self"
  using assms by (simp add: ingest_child_docs_def)

theorem child_ingestion_needs_parents_witness:
  "parent_doc_store (init_ingester (Map.empty :: string \<rightharpoonup> nat index_entry)) = [] \<and>
   ingest_child_docs demo_sent_tokenize demo_word_tokenize demo_sha256 demo_embed 2 1 ''m''
     (init_ingester Map.empty)
   = (Some (ValueError ''Parent Chunks were not created.''), init_ingester Map.empty)"
proof -
  have h: "parent_doc_store (init_ingester (Map.empty :: string \<rightharpoonup> nat index_entry)) = []"
    by (simp add: init_ingester_def)
  from child_ingestion_needs_parents [OF h, of demo_sent_tokenize demo_word_tokenize demo_sha256 demo_embed 2 1 "''m''"] h
  show ?thesis by simp
qed

text \<open>
  C8. Storing a chunk text is idempotent: the id is the digest of the text, so it is the
  same both times; after the first store the text stands under that id; the second store
  of the same text changes neither the store's contents nor its size.
\<close>

theorem parent_put_idempotent:
  "store_parent_chunk sha256 chunk (store_parent_chunk sha256 chunk self)
     = store_parent_chunk sha256 chunk self \<and>
   map_of (parent_doc_store (store_parent_chunk sha256 chunk self)) (sha256 chunk) = Some chunk \<and>
   length (parent_doc_store (store_parent_chunk sha256 chunk (store_parent_chunk sha256 chunk self)))
     = length (parent_doc_store (store_parent_chunk sha256 chunk self))"
  by (simp add: store_parent_chunk_def update_conv')

text \<open>
  C10. \<^verbatim>\<open>_ingest_child_docs\<close> leaves the parent store as it was, whether it raises or not,
  and \<^verbatim>\<open>_retrieve_docs\<close> leaves the whole object as it was, the parent store and the vector
  index.
\<close>

theorem parent_store_frame:
  "parent_doc_store
     (snd (ingest_child_docs sent_tokenize word_tokenize sha256 ollama_embed child_num_tokens
             child_token_overlap embed_model_name self))
     = parent_doc_store self \<and>
   snd (retrieve_docs ollama_embed query query_text embed_model_name n_results self) = self \<and>
   parent_doc_store (snd (retrieve_docs ollama_embed query query_text embed_model_name n_results self))
     = parent_doc_store self \<and>
   chroma_collection (snd (retrieve_docs ollama_embed query query_text embed_model_name n_results self))
     = chroma_collection self"
  by (simp add: ingest_child_docs_def ingest_children_store retrieve_docs_def Let_def)

lemma set_update_subset: "set (AList.update k v al) \<subseteq> insert (k, v) (set al)"
  by (induction al) auto

lemma store_ok_update:
  "store_ok sha256 store \<Longrightarrow> store_ok sha256 (AList.update (sha256 chunk) chunk store)"
  using set_update_subset [of "sha256 chunk" chunk store]
  by (auto simp add: store_ok_def)

lemma store_ok_fold:
  "store_ok sha256 (parent_doc_store self) \<Longrightarrow>
   store_ok sha256 (parent_doc_store (fold (store_parent_chunk sha256) chunks self))"
  by (induction chunks arbitrary: self) (simp_all add: store_ok_update)

lemma store_ok_ingest_parent_docs:
  "store_ok sha256 (parent_doc_store self) \<Longrightarrow>
   store_ok sha256 (parent_doc_store (snd (ingest_parent_docs st wt sha256 body nt ov self)))"
  by (cases "sentence_aware_splitter st wt body nt ov")
     (simp_all add: ingest_parent_docs_def store_ok_fold)

lemma store_ok_ingest_parent_calls:
  "store_ok sha256 (parent_doc_store self) \<Longrightarrow>
   store_ok sha256 (parent_doc_store (ingest_parent_calls st wt sha256 calls self))"
proof (induction calls arbitrary: self)
  case Nil
  then show ?case by (simp add: ingest_parent_calls_def)
next
  case (Cons c calls)
  obtain body nt ov where c: "c = (body, nt, ov)" by (cases c)
  from Cons.IH [OF store_ok_ingest_parent_docs [OF Cons.prems, of st wt body nt ov]]
  show ?case by (simp add: ingest_parent_calls_def c)
qed

lemma store_ok_lookup:
  "store_ok sha256 store \<Longrightarrow> map_of store k = Some t \<Longrightarrow> k = sha256 t"
  by (auto simp add: store_ok_def dest: map_of_SomeD)







lemma set_add_parent_id:
  "set (add_parent_id m ids) = set ids \<union> {v. map_of m ''parent_id'' = Some v}"
  by (auto simp add: add_parent_id_def split: option.splits)

lemma distinct_add_parent_id:
  "distinct ids \<Longrightarrow> distinct (add_parent_id m ids)"
  by (simp add: add_parent_id_def split: option.splits)

lemma length_add_parent_id:
  "length (add_parent_id m ids) \<le> Suc (length ids)"
  by (simp add: add_parent_id_def split: option.splits)

lemma fold_add_parent_id:
  "set (fold add_parent_id ms ids) = set ids \<union> {v. \<exists>m \<in> set ms. map_of m ''parent_id'' = Some v} \<and>
   (distinct ids \<longrightarrow> distinct (fold add_parent_id ms ids)) \<and>
   length (fold add_parent_id ms ids) \<le> length ids + length ms"
proof (induction ms arbitrary: ids)
  case Nil
  show ?case by simp
next
  case (Cons m ms)
  note ih = Cons.IH [of "add_parent_id m ids"]
  from ih have "set (fold add_parent_id (m # ms) ids) =
      set ids \<union> {v. \<exists>m' \<in> set (m # ms). map_of m' ''parent_id'' = Some v}"
    by (auto simp add: set_add_parent_id)
  moreover from ih have "distinct ids \<longrightarrow> distinct (fold add_parent_id (m # ms) ids)"
    by (simp add: distinct_add_parent_id)
  moreover from ih length_add_parent_id [of m ids]
  have "length (fold add_parent_id (m # ms) ids) \<le> length ids + length (m # ms)"
    by simp
  ultimately show ?case by blast
qed

lemma fold_fold_add_parent_id:
  "set (fold (\<lambda>metadata_lists ids. fold add_parent_id metadata_lists ids) result_lists ids) =
     set ids \<union> {v. \<exists>m \<in> set (concat result_lists). map_of m ''parent_id'' = Some v} \<and>
   (distinct ids \<longrightarrow> distinct (fold (\<lambda>metadata_lists ids. fold add_parent_id metadata_lists ids) result_lists ids)) \<and>
   length (fold (\<lambda>metadata_lists ids. fold add_parent_id metadata_lists ids) result_lists ids)
     \<le> length ids + length (concat result_lists)"
proof (induction result_lists arbitrary: ids)
  case Nil
  show ?case by simp
next
  case (Cons ms result_lists)
  note ih = Cons.IH [of "fold add_parent_id ms ids"]
  note f = fold_add_parent_id [of ms ids]
  let ?r = "fold (\<lambda>metadata_lists ids. fold add_parent_id metadata_lists ids) (ms # result_lists) ids"
  from ih f have "set ?r = set ids \<union> {v. \<exists>m \<in> set (concat (ms # result_lists)). map_of m ''parent_id'' = Some v}"
    by auto
  moreover from ih f have "distinct ids \<longrightarrow> distinct ?r" by simp
  moreover from ih f have "length ?r \<le> length ids + length (concat (ms # result_lists))" by simp
  ultimately show ?case by blast
qed

lemma collect_parent_ids_Some:
  "set (collect_parent_ids (Some result_lists)) = {v. \<exists>m \<in> set (concat result_lists). map_of m ''parent_id'' = Some v}"
  "distinct (collect_parent_ids (Some result_lists))"
  "length (collect_parent_ids (Some result_lists)) \<le> length (concat result_lists)"
  using fold_fold_add_parent_id [of result_lists "[]"]
  by (simp_all add: collect_parent_ids_def)

lemma lookup_parent_text:
  "lookup_parent store v docs = (case parent_text_of store v of Some t \<Rightarrow> docs @ [t] | None \<Rightarrow> docs)"
  by (simp add: lookup_parent_def parent_text_of_def split: meta_value.splits option.splits)

lemma fold_lookup_parent:
  "fold (lookup_parent store) ids docs = docs @ List.map_filter (parent_text_of store) ids"
  by (induction ids arbitrary: docs)
     (simp_all add: lookup_parent_text List.map_filter_simps split: option.splits)

lemma parent_text_of_digest:
  "store_ok sha256 store \<Longrightarrow> parent_text_of store v = Some t \<Longrightarrow> v = MStr (sha256 t)"
  by (cases v) (auto simp add: parent_text_of_def dest: store_ok_lookup)

lemma set_map_filter: "set (List.map_filter f xs) = {y. \<exists>x \<in> set xs. f x = Some y}"
  by (induction xs) (auto simp add: List.map_filter_simps split: option.splits)

lemma distinct_found_texts:
  "store_ok sha256 store \<Longrightarrow> distinct ids \<Longrightarrow> distinct (List.map_filter (parent_text_of store) ids)"
proof (induction ids)
  case Nil
  show ?case by (simp add: List.map_filter_simps)
next
  case (Cons v ids)
  show ?case
  proof (cases "parent_text_of store v")
    case None
    with Cons show ?thesis by (simp add: List.map_filter_simps)
  next
    case (Some t)
    have "t \<notin> set (List.map_filter (parent_text_of store) ids)"
    proof
      assume "t \<in> set (List.map_filter (parent_text_of store) ids)"
      then obtain v' where v': "v' \<in> set ids" "parent_text_of store v' = Some t"
        by (auto simp add: set_map_filter)
      from parent_text_of_digest [OF Cons.prems(1) v'(2)] parent_text_of_digest [OF Cons.prems(1) Some]
      have "v' = v" by simp
      with v'(1) Cons.prems(2) show False by simp
    qed
    with Some Cons show ?thesis by (simp add: List.map_filter_simps)
  qed
qed

lemma length_map_filter_le: "length (List.map_filter f xs) \<le> length xs"
  by (induction xs) (simp_all add: List.map_filter_simps split: option.splits)

lemma length_map_filter_less:
  "x \<in> set xs \<Longrightarrow> f x = None \<Longrightarrow> length (List.map_filter f xs) < length xs"
proof (induction xs)
  case Nil
  then show ?case by simp
next
  case (Cons y ys)
  show ?case
  proof (cases "x = y")
    case True
    with Cons.prems length_map_filter_le [of f ys] show ?thesis
      by (simp add: List.map_filter_simps)
  next
    case False
    with Cons show ?thesis by (auto simp add: List.map_filter_simps split: option.splits)
  qed
qed

lemma distinct_count_list: "distinct xs \<Longrightarrow> x \<in> set xs \<Longrightarrow> count_list xs x = 1"
  by (induction xs) auto

text \<open>
  C6. Let the store be content-addressed (as it is after \<^verbatim>\<open>_ingest_parent_docs\<close> calls, by
  C9) and let a hit of the query result carry the parent id \<open>p\<close>, once or several times.
  If \<open>p\<close> is a key of the store, its text occurs exactly once in the returned list. If it
  is not, nothing is raised and the list is shorter than the list of hits. In every case
  the returned texts are those of the hits' parent ids that are keys of the store, each
  once, so there are at most as many as hits.
\<close>

theorem retrieval_dedup_and_skip:
  assumes "store_ok sha256 (parent_doc_store self)"
    and "query (chroma_collection self) (ollama_embed embed_model_name query_text) n_results
           = Some result_lists"
    and "hit \<in> set (concat result_lists)"
    and "map_of hit ''parent_id'' = Some (MStr p)"
    and "docs = fst (retrieve_docs ollama_embed query query_text embed_model_name n_results self)"
  shows "(\<forall>t. map_of (parent_doc_store self) p = Some t \<longrightarrow> count_list docs t = 1) \<and>
     (map_of (parent_doc_store self) p = None \<longrightarrow> length docs < length (concat result_lists)) \<and>
     set docs = {t. \<exists>m \<in> set (concat result_lists). \<exists>p'.
                   map_of m ''parent_id'' = Some (MStr p') \<and>
                   map_of (parent_doc_store self) p' = Some t} \<and>
     distinct docs \<and> length docs \<le> length (concat result_lists)"
proof -
  let ?store = "parent_doc_store self"
  let ?ids = "collect_parent_ids (Some result_lists)"
  note ids = collect_parent_ids_Some [of result_lists]
  from assms(2,5) have docs: "docs = List.map_filter (parent_text_of ?store) ?ids"
    by (simp add: retrieve_docs_def Let_def fold_lookup_parent)
  from assms(3,4) ids(1) have p: "MStr p \<in> set ?ids" by auto
  have d: "distinct docs"
    unfolding docs by (rule distinct_found_texts [OF assms(1) ids(2)])
  have s: "set docs = {t. \<exists>m \<in> set (concat result_lists). \<exists>p'.
                   map_of m ''parent_id'' = Some (MStr p') \<and> map_of ?store p' = Some t}"
  proof (intro set_eqI iffI)
    fix t assume "t \<in> set docs"
    then obtain v where v: "v \<in> set ?ids" "parent_text_of ?store v = Some t"
      by (auto simp add: docs set_map_filter)
    from v(2) obtain p' where p': "v = MStr p'" "map_of ?store p' = Some t"
      by (cases v) (simp_all add: parent_text_of_def)
    from v(1) p'(1) ids(1) obtain m where "m \<in> set (concat result_lists)" "map_of m ''parent_id'' = Some (MStr p')"
      by auto
    with p'(2) show "t \<in> {t. \<exists>m \<in> set (concat result_lists). \<exists>p'.
                   map_of m ''parent_id'' = Some (MStr p') \<and> map_of ?store p' = Some t}"
      by blast
  next
    fix t assume "t \<in> {t. \<exists>m \<in> set (concat result_lists). \<exists>p'.
                   map_of m ''parent_id'' = Some (MStr p') \<and> map_of ?store p' = Some t}"
    then obtain m p' where m: "m \<in> set (concat result_lists)" "map_of m ''parent_id'' = Some (MStr p')"
      "map_of ?store p' = Some t" by blast
    from m(1,2) ids(1) have "MStr p' \<in> set ?ids" by auto
    moreover from m(3) have "parent_text_of ?store (MStr p') = Some t" by (simp add: parent_text_of_def)
    ultimately show "t \<in> set docs" by (auto simp add: docs set_map_filter)
  qed
  have once: "count_list docs t = 1" if "map_of ?store p = Some t" for t
  proof -
    from that assms(3,4) s have "t \<in> set docs" by blast
    with d show ?thesis by (rule distinct_count_list)
  qed
  have le: "length docs \<le> length (concat result_lists)"
    using length_map_filter_le [of "parent_text_of ?store" ?ids] ids(3) by (simp add: docs)
  have less: "length docs < length (concat result_lists)" if "map_of ?store p = None"
  proof -
    from that have "parent_text_of ?store (MStr p) = None" by (simp add: parent_text_of_def)
    from length_map_filter_less [where f = "parent_text_of ?store", OF p this] ids(3)
    show ?thesis by (simp add: docs)
  qed
  from once less s d le show ?thesis by blast
qed

theorem retrieval_dedup_and_skip_witness:
  "store_ok demo_sha256 (parent_doc_store
      (ingest_parent_calls demo_sent_tokenize demo_word_tokenize demo_sha256
         [(''aa/b/ccccc/d'', 3, 1)] (init_ingester (Map.empty :: string \<rightharpoonup> nat index_entry)))) \<and>
   [(''parent_id'', MStr ''#aa b''), (''chunk_index'', MInt 1)]
     \<in> set (concat [[[(''parent_id'', MStr ''#aa b''), (''chunk_index'', MInt 0)],
                      [(''parent_id'', MStr ''#aa b''), (''chunk_index'', MInt 1)],
                      [(''parent_id'', MStr ''#gone''), (''chunk_index'', MInt 0)]]]) \<and>
   map_of (parent_doc_store
      (ingest_parent_calls demo_sent_tokenize demo_word_tokenize demo_sha256
         [(''aa/b/ccccc/d'', 3, 1)] (init_ingester (Map.empty :: string \<rightharpoonup> nat index_entry))))
     ''#aa b'' = Some ''aa b'' \<and>
   fst (retrieve_docs demo_embed demo_query ''which?'' ''m'' 3
      (ingest_parent_calls demo_sent_tokenize demo_word_tokenize demo_sha256
         [(''aa/b/ccccc/d'', 3, 1)] (init_ingester (Map.empty :: string \<rightharpoonup> nat index_entry))))
     = [''aa b''] \<and>
   count_list [''aa b''] ''aa b'' = 1"
proof -
  let ?self = "ingest_parent_calls demo_sent_tokenize demo_word_tokenize demo_sha256
         [(''aa/b/ccccc/d'', 3, 1)] (init_ingester (Map.empty :: string \<rightharpoonup> nat index_entry))"
  let ?lists = "[[[(''parent_id'', MStr ''#aa b''), (''chunk_index'', MInt 0)],
                      [(''parent_id'', MStr ''#aa b''), (''chunk_index'', MInt 1)],
                      [(''parent_id'', MStr ''#gone''), (''chunk_index'', MInt 0)]]]"
  have ok: "store_ok demo_sha256 (parent_doc_store ?self)"
    by (rule store_ok_ingest_parent_calls) (simp add: init_ingester_def store_ok_def)
  have q: "demo_query (chroma_collection ?self) (demo_embed ''m'' ''which?'') 3 = Some ?lists"
    by (simp add: demo_query_def)
  have hit: "[(''parent_id'', MStr ''#aa b''), (''chunk_index'', MInt 1)] \<in> set (concat ?lists)"
    by simp
  have pid: "map_of [(''parent_id'', MStr ''#aa b''), (''chunk_index'', MInt 1)] ''parent_id'' = Some (MStr ''#aa b'')"
    by simp
  have present: "map_of (parent_doc_store ?self) ''#aa b'' = Some ''aa b''"
    by code_simp
  have docs: "fst (retrieve_docs demo_embed demo_query ''which?'' ''m'' 3 ?self) = [''aa b'']"
    by code_simp
  from retrieval_dedup_and_skip [OF ok q hit pid docs [symmetric]] ok hit present docs
  show ?thesis by simp
qed

lemma map_add_twice: "(m ++ w) ++ w = m ++ w"
  by (rule ext) (simp add: map_add_def split: option.splits)

text \<open>The writes of the child loops do not depend on the object they are applied to.\<close>

lemma fold_add_child_chunk_writes:
  "\<exists>w. \<forall>self. fold (add_child_chunk sha256 emb model parent_id) ics self
          = self\<lparr>chroma_collection := chroma_collection self ++ w\<rparr>"
proof (induction ics)
  case Nil
  have "\<forall>self. fold (add_child_chunk sha256 emb model parent_id) [] self
          = self\<lparr>chroma_collection := chroma_collection self ++ Map.empty\<rparr>"
    by simp
  then show ?case by blast
next
  case (Cons ic ics)
  then obtain w where w: "\<And>self. fold (add_child_chunk sha256 emb model parent_id) ics self
          = self\<lparr>chroma_collection := chroma_collection self ++ w\<rparr>" by blast
  obtain i c where ic: "ic = (i, c)" by (cases ic)
  let ?e = "\<lparr>embeddings = emb model c,
             metadatas = [(''parent_id'', MStr parent_id), (''chunk_index'', MInt (int i))],
             documents = c\<rparr>"
  have one: "add_child_chunk sha256 emb model parent_id ic self
      = self\<lparr>chroma_collection := chroma_collection self ++ [sha256 c \<mapsto> ?e]\<rparr>" for self
    by (simp add: add_child_chunk_def ic collection_add_def Let_def)
  have "fold (add_child_chunk sha256 emb model parent_id) (ic # ics) self
      = self\<lparr>chroma_collection := chroma_collection self ++ ([sha256 c \<mapsto> ?e] ++ w)\<rparr>" for self
    by (simp add: w one)
  then show ?case by blast
qed

lemma splitter_error_iff:
  "nt \<le> ov \<Longrightarrow> sentence_aware_splitter st wt body nt ov
      = Inl (ValueError ''num_tokens must be greater than token_overlap'')"
  "\<not> nt \<le> ov \<Longrightarrow> \<exists>chunks. sentence_aware_splitter st wt body nt ov = Inr chunks"
  by (simp_all add: sentence_aware_splitter_def Let_def)

lemma ingest_children_writes:
  assumes "\<not> cnt \<le> cov"
  shows "\<exists>w. \<forall>self. ingest_children st wt sha256 emb cnt cov model items self
          = (None, self\<lparr>chroma_collection := chroma_collection self ++ w\<rparr>)"
proof (induction items)
  case Nil
  have "\<forall>self. ingest_children st wt sha256 emb cnt cov model [] self
          = (None, self\<lparr>chroma_collection := chroma_collection self ++ Map.empty\<rparr>)"
    by simp
  then show ?case by blast
next
  case (Cons item items)
  then obtain w where w: "\<And>self. ingest_children st wt sha256 emb cnt cov model items self
          = (None, self\<lparr>chroma_collection := chroma_collection self ++ w\<rparr>)" by blast
  obtain parent_id parent_chunk where i: "item = (parent_id, parent_chunk)" by (cases item)
  from splitter_error_iff(2) [OF assms] obtain child_chunks
    where c: "sentence_aware_splitter st wt parent_chunk cnt cov = Inr child_chunks" by blast
  from fold_add_child_chunk_writes [of sha256 emb model parent_id "enumerate 0 child_chunks"]
  obtain w1 where w1: "\<And>self. fold (add_child_chunk sha256 emb model parent_id) (enumerate 0 child_chunks) self
          = self\<lparr>chroma_collection := chroma_collection self ++ w1\<rparr>" by blast
  have "ingest_children st wt sha256 emb cnt cov model (item # items) self
          = (None, self\<lparr>chroma_collection := chroma_collection self ++ (w1 ++ w)\<rparr>)" for self
    by (simp add: i c w w1)
  then show ?case by blast
qed

lemma ingest_children_error:
  "cnt \<le> cov \<Longrightarrow> items \<noteq> [] \<Longrightarrow>
   ingest_children st wt sha256 emb cnt cov model items self
     = (Some (ValueError ''num_tokens must be greater than token_overlap''), self)"
  by (cases items) (auto simp add: splitter_error_iff(1))

text \<open>
  C5. Child ingestion is idempotent: run a second time, on the object the first run
  leaves, \<^verbatim>\<open>_ingest_child_docs\<close> gives the same outcome and the same object, hence the same
  vector index, as the first run did. The ids are digests of the child texts, and the
  index replaces the entry of an id that is present.
\<close>

theorem child_ingestion_idempotent:
  "ingest_child_docs sent_tokenize word_tokenize sha256 ollama_embed child_num_tokens
     child_token_overlap embed_model_name
     (snd (ingest_child_docs sent_tokenize word_tokenize sha256 ollama_embed child_num_tokens
             child_token_overlap embed_model_name self))
   = ingest_child_docs sent_tokenize word_tokenize sha256 ollama_embed child_num_tokens
       child_token_overlap embed_model_name self \<and>
   chroma_collection
     (snd (ingest_child_docs sent_tokenize word_tokenize sha256 ollama_embed child_num_tokens
        child_token_overlap embed_model_name
        (snd (ingest_child_docs sent_tokenize word_tokenize sha256 ollama_embed child_num_tokens
                child_token_overlap embed_model_name self))))
   = chroma_collection
       (snd (ingest_child_docs sent_tokenize word_tokenize sha256 ollama_embed child_num_tokens
               child_token_overlap embed_model_name self))"
proof -
  let ?run = "ingest_child_docs sent_tokenize word_tokenize sha256 ollama_embed child_num_tokens
     child_token_overlap embed_model_name"
  have "?run (snd (?run self)) = ?run self"
  proof (cases "parent_doc_store self = []")
    case True
    then show ?thesis by (simp add: ingest_child_docs_def)
  next
    case False
    show ?thesis
    proof (cases "child_num_tokens \<le> child_token_overlap")
      case True
      with False show ?thesis by (simp add: ingest_child_docs_def ingest_children_error)
    next
      case nt: False
      from ingest_children_writes [OF nt, of sent_tokenize word_tokenize sha256 ollama_embed
          embed_model_name "parent_doc_store self"]
      obtain w where w: "\<And>s. ingest_children sent_tokenize word_tokenize sha256 ollama_embed
            child_num_tokens child_token_overlap embed_model_name (parent_doc_store self) s
          = (None, s\<lparr>chroma_collection := chroma_collection s ++ w\<rparr>)" by blast
      from False show ?thesis by (simp add: ingest_child_docs_def w map_add_twice)
    qed
  qed
  then show ?thesis by simp
qed

end
